theory Spec2Isabelle
  imports Main "HOL-Library.Char_ord" "HOL-Library.List_Lexorder" "HOL-Library.Sublist"
begin

section \<open>Linking object numbers to image files (linking.py)\<close>

text \<open>
  The development embeds three functions of \<^verbatim>\<open>linking.py\<close>:
  \<^verbatim>\<open>parse_object_number\<close>, \<^verbatim>\<open>find_matching_files_in_year\<close> and
  \<^verbatim>\<open>build_links_like_group\<close>, together with the library operations they call.

  A Python \<^verbatim>\<open>str\<close> is modelled as a \<^typ>\<open>string\<close>; a \<^typ>\<open>char\<close> stands for one
  of the code points 0 to 255. Strings are compared as Python compares them: by
  code point, lexicographically, a proper prefix being smaller.
\<close>

subsection \<open>Characters and strings\<close>

text \<open>\<^verbatim>\<open>\d\<close> of a \<^verbatim>\<open>str\<close> pattern: the decimal digits; below code point 256 these
  are \<^verbatim>\<open>0\<close> to \<^verbatim>\<open>9\<close>.\<close>

definition is_digit :: "char \<Rightarrow> bool" where
  "is_digit c = (c \<in> set ''0123456789'')"

text \<open>\<^verbatim>\<open>\s\<close> and the characters removed by \<^verbatim>\<open>str.strip()\<close>: tab, line feed,
  vertical tab, form feed, carriage return, the separators 0x1C to 0x1F, space,
  next line (0x85) and no-break space (0xA0).\<close>

definition is_space :: "char \<Rightarrow> bool" where
  "is_space c = (c \<in> set [CHR 0x09, CHR 0x0A, CHR 0x0B, CHR 0x0C, CHR 0x0D,
     CHR 0x1C, CHR 0x1D, CHR 0x1E, CHR 0x1F, CHR 0x20, CHR 0x85, CHR 0xA0])"

text \<open>\<^verbatim>\<open>str.strip()\<close> without argument.\<close>

definition strip :: "string \<Rightarrow> string" where
  "strip s = rev (dropWhile is_space (rev (dropWhile is_space s)))"

text \<open>\<^verbatim>\<open>str.lower()\<close>: the letters A to Z and the upper-case letters 0xC0 to 0xDE
  (without the multiplication sign 0xD7) move up by 32.\<close>

definition lower_char :: "char \<Rightarrow> char" where
  "lower_char c =
     (let n = (of_char c :: nat)
      in if (65 \<le> n \<and> n \<le> 90) \<or> (192 \<le> n \<and> n \<le> 222 \<and> n \<noteq> 215)
         then char_of (n + 32) else c)"

definition lower :: "string \<Rightarrow> string" where
  "lower s = map lower_char s"

text \<open>\<^verbatim>\<open>str.startswith\<close>.\<close>

definition startswith :: "string \<Rightarrow> string \<Rightarrow> bool" where
  "startswith s p = (take (length p) s = p)"

text \<open>\<^verbatim>\<open>sep.join(xs)\<close>.\<close>

fun join_str :: "string \<Rightarrow> string list \<Rightarrow> string" where
  "join_str sep [] = []"
| "join_str sep [x] = x"
| "join_str sep (x # y # ys) = x @ sep @ join_str sep (y # ys)"

subsection \<open>The regular expression\<close>

text \<open>
  \<^verbatim>\<open>OBJ_RE = re.compile(r"(\d+)\s*/\s*(\d{4})\s*/\s*(\d{3,4})\s+(\d+)", re.IGNORECASE)\<close>

  The pattern is a sequence of pieces, each a greedy repetition of one character class
  with a lower and an optional upper bound; four of the pieces are capturing groups.
  The matcher follows the backtracking engine: a piece first takes as many characters
  as it can, and gives them back one at a time while the rest of the pattern fails.
  The flag \<^verbatim>\<open>re.IGNORECASE\<close> changes nothing, since no piece is a letter.
\<close>

datatype charclass = Digit | Space | Lit char

fun in_class :: "charclass \<Rightarrow> char \<Rightarrow> bool" where
  "in_class Digit c = is_digit c"
| "in_class Space c = is_space c"
| "in_class (Lit d) c = (c = d)"

datatype piece = Piece (capture: bool) (cls: charclass) (lo: nat) (hi: "nat option")

definition OBJ_RE :: "piece list" where
  "OBJ_RE =
    [Piece True Digit 1 None,
     Piece False Space 0 None, Piece False (Lit (CHR ''/'')) 1 (Some 1), Piece False Space 0 None,
     Piece True Digit 4 (Some 4),
     Piece False Space 0 None, Piece False (Lit (CHR ''/'')) 1 (Some 1), Piece False Space 0 None,
     Piece True Digit 3 (Some 4),
     Piece False Space 1 None,
     Piece True Digit 1 None]"

text \<open>The number of characters a piece takes at first: the run of characters of its
  class, cut at its upper bound.\<close>

definition greedy :: "piece \<Rightarrow> string \<Rightarrow> nat" where
  "greedy p s =
     (let n = length (takeWhile (in_class (cls p)) s)
      in case hi p of None \<Rightarrow> n | Some h \<Rightarrow> min n h)"

text \<open>\<open>backtrack f l k\<close> tries the counts \<open>k\<close>, \<open>k - 1\<close>, down to \<open>l\<close> and returns the
  first success of the continuation \<open>f\<close>.\<close>

fun backtrack :: "(nat \<Rightarrow> 'a option) \<Rightarrow> nat \<Rightarrow> nat \<Rightarrow> 'a option" where
  "backtrack f l k =
     (case f k of
        Some r \<Rightarrow> Some r
      | None \<Rightarrow> if k \<le> l then None else backtrack f l (k - 1))"

text \<open>Matching the pieces at the start of a string; the result lists the text taken by
  each piece.\<close>

primrec match_here :: "piece list \<Rightarrow> string \<Rightarrow> string list option" where
  "match_here [] s = Some []"
| "match_here (p # ps) s =
     (let n = greedy p s
      in if n < lo p then None
         else backtrack (\<lambda>k. map_option (Cons (take k s)) (match_here ps (drop k s))) (lo p) n)"

text \<open>\<^verbatim>\<open>pattern.search(s)\<close>: the match at the leftmost position that has one.\<close>

fun re_search :: "piece list \<Rightarrow> string \<Rightarrow> string list option" where
  "re_search ps [] = match_here ps []"
| "re_search ps (c # cs) =
     (case match_here ps (c # cs) of
        Some ts \<Rightarrow> Some ts
      | None \<Rightarrow> re_search ps cs)"

text \<open>\<^verbatim>\<open>m.groups()\<close>: the texts of the capturing pieces.\<close>

definition groups :: "piece list \<Rightarrow> string list \<Rightarrow> string list" where
  "groups ps ts = map snd (filter (\<lambda>(p, t). capture p) (zip ps ts))"

subsection \<open>parse\_object\_number\<close>

text \<open>A cell of the column \<^verbatim>\<open>obj_id_raw\<close>: a string, a missing value (\<^verbatim>\<open>None\<close>/\<^verbatim>\<open>NaN\<close>),
  or another value that is not a string (a number read from a numeric cell).\<close>

datatype pyval = Str string | NaN | Num int

text \<open>The dictionary returned by the parser, as the list of its items.\<close>

type_synonym pydict = "(string \<times> string) list"

text \<open>
  \<^verbatim>\<open>
  def parse_object_number(raw) -> Optional[dict]:
      if not isinstance(raw, str):
          return None
      m = OBJ_RE.search(raw)
      if not m:
          return None
      g1, year, g3, _g4 = m.groups()
      base_prefix = f"{g1}-{year}-{g3}-"
      return {"year": year, "base_prefix": base_prefix}
  \<close>
  The pattern has four groups, so the unpacking of \<^verbatim>\<open>m.groups()\<close> cannot fail; the
  last case below is never taken (\<open>groups_OBJ_RE\<close>).
\<close>

definition parse_object_number :: "pyval \<Rightarrow> pydict option" where
  "parse_object_number raw =
     (case raw of
        Str s \<Rightarrow>
          (case re_search OBJ_RE s of
             None \<Rightarrow> None
           | Some ts \<Rightarrow>
               (case groups OBJ_RE ts of
                  [g1, year, g3, g4] \<Rightarrow>
                    Some [(''year'', year), (''base_prefix'', g1 @ ''-'' @ year @ ''-'' @ g3 @ ''-'')]
                | _ \<Rightarrow> None))
      | _ \<Rightarrow> None)"


subsection \<open>Paths and the file system\<close>

text \<open>Exceptions that the modelled code can meet: a missing dictionary key, and a
  failure of \<^verbatim>\<open>os.listdir\<close>.\<close>

datatype error = KeyError string | OSError

text \<open>
  The functions \<^verbatim>\<open>os.path.isdir\<close>, \<^verbatim>\<open>os.path.isfile\<close> and \<^verbatim>\<open>os.listdir\<close> are
  parameters: a file system is any triple of them. \<^verbatim>\<open>os.listdir\<close> may raise
  (the directory is missing or cannot be read).
\<close>

record os =
  isdir :: "string \<Rightarrow> bool"
  isfile :: "string \<Rightarrow> bool"
  listdir :: "string \<Rightarrow> error + string list"

definition endswith :: "string \<Rightarrow> string \<Rightarrow> bool" where
  "endswith s p = (length p \<le> length s \<and> drop (length s - length p) s = p)"

text \<open>\<^verbatim>\<open>os.path.join(a, b)\<close> of \<^verbatim>\<open>posixpath\<close>: an absolute \<open>b\<close> replaces \<open>a\<close>;
  otherwise one separator stands between the two.\<close>

definition path_join :: "string \<Rightarrow> string \<Rightarrow> string" where
  "path_join a b =
     (if startswith b ''/'' then b
      else if a = [] \<or> endswith a ''/'' then a @ b
      else a @ ''/'' @ b)"

text \<open>\<^verbatim>\<open>str.rfind\<close> of one character: the last index, or -1.\<close>

definition rfind :: "string \<Rightarrow> char \<Rightarrow> int" where
  "rfind s c =
     (case filter (\<lambda>i. s ! i = c) (rev [0..<length s]) of
        [] \<Rightarrow> - 1
      | i # _ \<Rightarrow> int i)"

text \<open>\<^verbatim>\<open>os.path.splitext\<close>: the extension starts at the last dot of the last path
  component, unless only dots stand before it in that component.\<close>

definition splitext :: "string \<Rightarrow> string \<times> string" where
  "splitext p =
     (let sepIndex = rfind p (CHR ''/'');
          dotIndex = rfind p (CHR ''.'')
      in if dotIndex > sepIndex \<and>
            list_ex (\<lambda>i. p ! i \<noteq> CHR ''.'') [nat (sepIndex + 1)..<nat dotIndex]
         then (take (nat dotIndex) p, drop (nat dotIndex) p)
         else (p, []))"

text \<open>\<^verbatim>\<open>os.path.basename\<close>.\<close>

definition basename :: "string \<Rightarrow> string" where
  "basename p = drop (nat (rfind p (CHR ''/'') + 1)) p"

subsection \<open>find\_matching\_files\_in\_year\<close>

definition ALLOWED_EXTS :: "string set" where
  "ALLOWED_EXTS = {''.jpg'', ''.jpeg'', ''.png'', ''.tif'', ''.tiff'', ''.bmp''}"

text \<open>
  \<^verbatim>\<open>
      base_lower = base_prefix.lower()
      out = []
      for name in os.listdir(year_dir):
          p = os.path.join(year_dir, name)
          if not os.path.isfile(p):
              continue
          ext = os.path.splitext(name)[1].lower()
          if ext not in ALLOWED_EXTS:
              continue
          if name.lower().startswith(base_lower):
              out.append(p)
  \<close>
\<close>

fun scan_names :: "os \<Rightarrow> string \<Rightarrow> string \<Rightarrow> string list \<Rightarrow> string list \<Rightarrow> string list" where
  "scan_names fs year_dir base_lower [] out = out"
| "scan_names fs year_dir base_lower (name # names) out =
     (let p = path_join year_dir name
      in if \<not> isfile fs p then scan_names fs year_dir base_lower names out
         else let ext = lower (snd (splitext name))
              in if ext \<notin> ALLOWED_EXTS then scan_names fs year_dir base_lower names out
                 else if startswith (lower name) base_lower
                      then scan_names fs year_dir base_lower names (out @ [p])
                      else scan_names fs year_dir base_lower names out)"

text \<open>
  \<^verbatim>\<open>
  def find_matching_files_in_year(images_root, year, base_prefix):
      year_dir = os.path.join(images_root, year)
      if not os.path.isdir(year_dir):
          return []
      ...
      return sorted(out)
  \<close>
\<close>

definition find_matching_files_in_year ::
    "os \<Rightarrow> string \<Rightarrow> string \<Rightarrow> string \<Rightarrow> error + string list" where
  "find_matching_files_in_year fs images_root yr base_prefix =
     (let year_dir = path_join images_root yr
      in if \<not> isdir fs year_dir then Inr []
         else case listdir fs year_dir of
                Inl e \<Rightarrow> Inl e
              | Inr names \<Rightarrow> Inr (sort (scan_names fs year_dir (lower base_prefix) names [])))"

subsection \<open>build\_links\_like\_group\<close>

text \<open>
  The data frame \<^verbatim>\<open>meta\<close> is the list of its rows, each the pair of the cells
  \<^verbatim>\<open>obj_id_raw\<close> and \<^verbatim>\<open>_source_file\<close>. A row of the result (a linked group) and an
  entry of the list \<^verbatim>\<open>misses\<close> are records; an entry of \<^verbatim>\<open>misses\<close> has the keys
  \<^verbatim>\<open>year\<close> and \<^verbatim>\<open>base_prefix\<close> only when the identifier was parsed.
\<close>

record link_row =
  r_obj_id_raw :: pyval
  r_year :: string
  r_base_prefix :: string
  r_images :: "string list"
  r_image_count :: nat
  r_source_files :: string

record miss =
  m_obj_id_raw :: pyval
  m_year :: "string option"
  m_base_prefix :: "string option"
  m_reason :: string

type_synonym key = "string \<times> string"

text \<open>\<^verbatim>\<open>d[k]\<close> on a dictionary.\<close>

definition getitem :: "pydict \<Rightarrow> string \<Rightarrow> error + string" where
  "getitem d k = (case map_of d k of None \<Rightarrow> Inl (KeyError k) | Some v \<Rightarrow> Inr v)"

text \<open>\<^verbatim>\<open>if not parsed\<close>: \<^verbatim>\<open>None\<close> and the empty dictionary are false. In both
  loops below the value is a dictionary once this test has failed, so the case
  \<open>None\<close> that follows the test is never reached.\<close>

definition falsy :: "pydict option \<Rightarrow> bool" where
  "falsy parsed = (case parsed of None \<Rightarrow> True | Some d \<Rightarrow> d = [])"

text \<open>The pandas operations on the column: \<^verbatim>\<open>dropna()\<close>,
  \<^verbatim>\<open>map(lambda x: x.strip() if isinstance(x, str) else x)\<close> and \<^verbatim>\<open>drop_duplicates()\<close>,
  which keeps the first of equal values.\<close>

definition dropna :: "pyval list \<Rightarrow> pyval list" where
  "dropna vs = filter (\<lambda>v. v \<noteq> NaN) vs"

definition strip_val :: "pyval \<Rightarrow> pyval" where
  "strip_val x = (case x of Str s \<Rightarrow> Str (strip s) | _ \<Rightarrow> x)"

fun drop_duplicates :: "'a list \<Rightarrow> 'a list" where
  "drop_duplicates [] = []"
| "drop_duplicates (x # xs) = x # drop_duplicates (filter (\<lambda>y. y \<noteq> x) xs)"

text \<open>
  The first loop collects the source files of every key:
  \<^verbatim>\<open>
      src_map = {}
      for _, r in meta.iterrows():
          parsed = parse_object_number(r["obj_id_raw"]) if isinstance(r["obj_id_raw"], str) else None
          if not parsed:
              continue
          key = (parsed["year"], parsed["base_prefix"].lower())
          src_map.setdefault(key, set()).add(r["_source_file"])
  \<close>
\<close>

definition source_step ::
    "pyval \<times> string \<Rightarrow> (key \<rightharpoonup> string set) \<Rightarrow> error + (key \<rightharpoonup> string set)" where
  "source_step r src_map =
     (let parsed = (case fst r of Str s \<Rightarrow> parse_object_number (fst r) | _ \<Rightarrow> None)
      in if falsy parsed then Inr src_map
         else case parsed of
                None \<Rightarrow> Inr src_map
              | Some d \<Rightarrow>
                 (case getitem d ''year'' of
                    Inl e \<Rightarrow> Inl e
                  | Inr yr \<Rightarrow>
                     (case getitem d ''base_prefix'' of
                        Inl e \<Rightarrow> Inl e
                      | Inr bp \<Rightarrow>
                          let k = (yr, lower bp);
                              old = (case src_map k of None \<Rightarrow> {} | Some S \<Rightarrow> S)
                          in Inr (src_map(k \<mapsto> insert (snd r) old)))))"

fun source_loop ::
    "(pyval \<times> string) list \<Rightarrow> (key \<rightharpoonup> string set) \<Rightarrow> error + (key \<rightharpoonup> string set)" where
  "source_loop [] src_map = Inr src_map"
| "source_loop (r # rs) src_map =
     (case source_step r src_map of
        Inl e \<Rightarrow> Inl e
      | Inr src_map' \<Rightarrow> source_loop rs src_map')"

text \<open>The two reason texts of the list \<^verbatim>\<open>misses\<close>; 0x27 is the apostrophe and 0xE4
  the letter a with diaeresis.\<close>

definition reason_no_number :: string where
  "reason_no_number =
     ''Keine Objektnummer im Format '' @ [CHR 0x27] @ ''g1/yyyy/g3 g4'' @ [CHR 0x27] @ '' gefunden''"

definition reason_no_files :: "string \<Rightarrow> string \<Rightarrow> string" where
  "reason_no_files yr bp =
     ''Keine Dateien in '' @ yr @ ''/ mit Pr'' @ [CHR 0xE4] @ ''fix '' @ [CHR 0x27] @ bp @ [CHR 0x27]"

text \<open>
  The second loop, one identifier at a time:
  \<^verbatim>\<open>
      for raw in series.tolist():
          parsed = parse_object_number(raw)
          if not parsed:
              misses.append({"obj_id_raw": raw, "reason": "Keine Objektnummer ..."})
              continue
          year = parsed["year"]
          base_prefix = parsed["base_prefix"]
          key = (year, base_prefix.lower())
          if key in seen_prefixes:
              continue
          seen_prefixes.add(key)
          matches = find_matching_files_in_year(images_root, year, base_prefix)
          if not matches:
              misses.append({"obj_id_raw": raw, "year": year, "base_prefix": base_prefix,
                             "reason": f"Keine Dateien in {year}/ mit Praefix '{base_prefix}'"})
              continue
          source_files = sorted(src_map.get(key, set()))
          rows.append({"obj_id_raw": raw, "year": year, "base_prefix": base_prefix,
                       "images": [os.path.basename(p) for p in matches],
                       "image_count": len(matches),
                       "_source_files": ", ".join(source_files)})
  \<close>
\<close>

record link_state =
  st_rows :: "link_row list"
  st_misses :: "miss list"
  st_seen :: "key set"

definition link_step ::
    "os \<Rightarrow> string \<Rightarrow> (key \<rightharpoonup> string set) \<Rightarrow> pyval \<Rightarrow> link_state \<Rightarrow> error + link_state" where
  "link_step fs images_root src_map raw st =
     (let parsed = parse_object_number raw
      in if falsy parsed
         then Inr (st\<lparr>st_misses := st_misses st @
                [\<lparr>m_obj_id_raw = raw, m_year = None, m_base_prefix = None,
                  m_reason = reason_no_number\<rparr>]\<rparr>)
         else case parsed of
                None \<Rightarrow> Inr st
              | Some d \<Rightarrow>
                 (case getitem d ''year'' of
                    Inl e \<Rightarrow> Inl e
                  | Inr yr \<Rightarrow>
                     (case getitem d ''base_prefix'' of
                        Inl e \<Rightarrow> Inl e
                      | Inr bp \<Rightarrow>
                          let k = (yr, lower bp)
                          in if k \<in> st_seen st then Inr st
                             else let st1 = st\<lparr>st_seen := insert k (st_seen st)\<rparr>
                                  in case find_matching_files_in_year fs images_root yr bp of
                                       Inl e \<Rightarrow> Inl e
                                     | Inr matches \<Rightarrow>
                                         if matches = []
                                         then Inr (st1\<lparr>st_misses := st_misses st1 @
                                                [\<lparr>m_obj_id_raw = raw, m_year = Some yr,
                                                  m_base_prefix = Some bp,
                                                  m_reason = reason_no_files yr bp\<rparr>]\<rparr>)
                                         else let source_files = sorted_list_of_set
                                                    (case src_map k of None \<Rightarrow> {} | Some S \<Rightarrow> S)
                                              in Inr (st1\<lparr>st_rows := st_rows st1 @
                                                   [\<lparr>r_obj_id_raw = raw, r_year = yr,
                                                     r_base_prefix = bp,
                                                     r_images = map basename matches,
                                                     r_image_count = length matches,
                                                     r_source_files =
                                                       join_str '', '' source_files\<rparr>]\<rparr>))))"

fun link_loop ::
    "os \<Rightarrow> string \<Rightarrow> (key \<rightharpoonup> string set) \<Rightarrow> pyval list \<Rightarrow> link_state \<Rightarrow> error + link_state" where
  "link_loop fs images_root src_map [] st = Inr st"
| "link_loop fs images_root src_map (raw # raws) st =
     (case link_step fs images_root src_map raw st of
        Inl e \<Rightarrow> Inl e
      | Inr st' \<Rightarrow> link_loop fs images_root src_map raws st')"

text \<open>
  \<^verbatim>\<open>
  def build_links_like_group(meta, images_root):
      if meta.empty:
          return pd.DataFrame(columns=[...])
      series = (meta["obj_id_raw"].dropna()
                .map(lambda x: x.strip() if isinstance(x, str) else x)
                .drop_duplicates())
      rows = []; misses = []; seen_prefixes = set()
      ...
      return pd.DataFrame(rows)
  \<close>
  The function returns the rows and writes the list \<^verbatim>\<open>misses\<close> to a file when it is
  not empty; the model returns both lists.
\<close>

definition series_of :: "(pyval \<times> string) list \<Rightarrow> pyval list" where
  "series_of meta = drop_duplicates (map strip_val (dropna (map fst meta)))"

definition build_links_like_group ::
    "os \<Rightarrow> (pyval \<times> string) list \<Rightarrow> string \<Rightarrow> error + (link_row list \<times> miss list)" where
  "build_links_like_group fs meta images_root =
     (if meta = [] then Inr ([], [])
      else case source_loop meta Map.empty of
             Inl e \<Rightarrow> Inl e
           | Inr src_map \<Rightarrow>
              (case link_loop fs images_root src_map (series_of meta)
                      \<lparr>st_rows = [], st_misses = [], st_seen = {}\<rparr> of
                 Inl e \<Rightarrow> Inl e
               | Inr st \<Rightarrow> Inr (st_rows st, st_misses st)))"

section \<open>Specification predicates\<close>

text \<open>
  The identifier pattern in words: digits, a slash, a four-digit year, a slash, a
  number of three or four digits, white space, digits; white space may stand on
  either side of each slash. \<open>obj_pattern g y q t\<close> says that the text \<open>t\<close> has this
  form with the group \<open>g\<close>, the year \<open>y\<close> and the sequence number \<open>q\<close>; the series
  is any non-empty digit string.
\<close>

definition obj_pattern :: "string \<Rightarrow> string \<Rightarrow> string \<Rightarrow> string \<Rightarrow> bool" where
  "obj_pattern g y q t =
     (\<exists>w1 w2 w3 w4 w5 sr.
        t = g @ w1 @ ''/'' @ w2 @ y @ w3 @ ''/'' @ w4 @ q @ w5 @ sr \<and>
        g \<noteq> [] \<and> list_all is_digit g \<and>
        length y = 4 \<and> list_all is_digit y \<and>
        (length q = 3 \<or> length q = 4) \<and> list_all is_digit q \<and>
        sr \<noteq> [] \<and> list_all is_digit sr \<and>
        list_all is_space w1 \<and> list_all is_space w2 \<and> list_all is_space w3 \<and>
        list_all is_space w4 \<and> w5 \<noteq> [] \<and> list_all is_space w5)"

text \<open>The pattern occurs in \<open>s\<close> at position \<open>i\<close>.\<close>

definition occurs_at :: "string \<Rightarrow> nat \<Rightarrow> bool" where
  "occurs_at s i =
     (i \<le> length s \<and> (\<exists>g y q t post. drop i s = t @ post \<and> obj_pattern g y q t))"

text \<open>The text a piece may take: characters of its class, their number within its
  bounds.\<close>

definition piece_text :: "piece \<Rightarrow> string \<Rightarrow> bool" where
  "piece_text p t =
     (list_all (in_class (cls p)) t \<and> lo p \<le> length t \<and>
      (case hi p of None \<Rightarrow> True | Some h \<Rightarrow> length t \<le> h))"

text \<open>A pattern whose last piece takes at least one digit.\<close>

definition ends_with_digits :: "piece list \<Rightarrow> bool" where
  "ends_with_digits ps = (ps \<noteq> [] \<and> cls (last ps) = Digit \<and> 1 \<le> lo (last ps))"

text \<open>
  A directory entry qualifies for a prefix: it is a regular file, its extension in lower
  case is one of the allowed ones, and its name in lower case begins with the prefix
  in lower case.
\<close>

definition qualifies :: "os \<Rightarrow> string \<Rightarrow> string \<Rightarrow> string \<Rightarrow> bool" where
  "qualifies fs year_dir base_prefix name =
     (isfile fs (path_join year_dir name) \<and>
      lower (snd (splitext name)) \<in> ALLOWED_EXTS \<and>
      (\<exists>rest. lower name = lower base_prefix @ rest))"

text \<open>The names returned by \<^verbatim>\<open>os.listdir\<close> are names of entries: none contains the
  separator.\<close>

definition plain_names :: "string list \<Rightarrow> bool" where
  "plain_names names = list_all (\<lambda>n. CHR ''/'' \<notin> set n) names"

subsection \<open>The outcome of the aggregation in words\<close>

text \<open>The year and the prefix that the parser finds in an identifier, and the key
  under which the aggregation files it: the year and the prefix in lower case.\<close>

definition parts_of :: "pyval \<Rightarrow> (string \<times> string) option" where
  "parts_of v =
     (case parse_object_number v of
        Some [(k1, y), (k2, bp)] \<Rightarrow> Some (y, bp)
      | _ \<Rightarrow> None)"

definition key_of :: "pyval \<Rightarrow> key option" where
  "key_of v = map_option (\<lambda>(y, bp). (y, lower bp)) (parts_of v)"

definition row_key :: "link_row \<Rightarrow> key" where
  "row_key r = (r_year r, lower (r_base_prefix r))"

definition miss_key :: "miss \<Rightarrow> key option" where
  "miss_key m =
     (case (m_year m, m_base_prefix m) of
        (Some y, Some bp) \<Rightarrow> Some (y, lower bp)
      | _ \<Rightarrow> None)"

text \<open>The source files of all rows of the input whose identifier has the key \<open>k\<close>.\<close>

definition sources_of :: "(pyval \<times> string) list \<Rightarrow> key \<Rightarrow> string set" where
  "sources_of meta k = {src. \<exists>raw. (raw, src) \<in> set meta \<and> key_of raw = Some k}"

text \<open>
  The identifiers that lead to an entry, in their order: those without a key, and for
  each key that was not seen before the first identifier that has it.
\<close>

fun emit :: "key set \<Rightarrow> pyval list \<Rightarrow> pyval list" where
  "emit seen [] = []"
| "emit seen (x # xs) =
     (case key_of x of
        None \<Rightarrow> x # emit seen xs
      | Some k \<Rightarrow> if k \<in> seen then emit seen xs else x # emit (insert k seen) xs)"

text \<open>The linked group of an identifier, if its key resolves to files, and its entry in
  the list of misses otherwise.\<close>

definition mk_row :: "os \<Rightarrow> string \<Rightarrow> (key \<Rightarrow> string set) \<Rightarrow> pyval \<Rightarrow> link_row option" where
  "mk_row fs images_root srcs raw =
     (case parts_of raw of
        None \<Rightarrow> None
      | Some (y, bp) \<Rightarrow>
         (case find_matching_files_in_year fs images_root y bp of
            Inl e \<Rightarrow> None
          | Inr ms \<Rightarrow>
              if ms = [] then None
              else Some \<lparr>r_obj_id_raw = raw, r_year = y, r_base_prefix = bp,
                         r_images = map basename ms, r_image_count = length ms,
                         r_source_files =
                           join_str '', '' (sorted_list_of_set (srcs (y, lower bp)))\<rparr>))"

definition mk_miss :: "os \<Rightarrow> string \<Rightarrow> pyval \<Rightarrow> miss option" where
  "mk_miss fs images_root raw =
     (case parts_of raw of
        None \<Rightarrow> Some \<lparr>m_obj_id_raw = raw, m_year = None, m_base_prefix = None,
                       m_reason = reason_no_number\<rparr>
      | Some (y, bp) \<Rightarrow>
         (case find_matching_files_in_year fs images_root y bp of
            Inl e \<Rightarrow> None
          | Inr ms \<Rightarrow>
              if ms = []
              then Some \<lparr>m_obj_id_raw = raw, m_year = Some y, m_base_prefix = Some bp,
                         m_reason = reason_no_files y bp\<rparr>
              else None))"

text \<open>The sets of a dictionary of sets, the empty set for a missing key
  (\<^verbatim>\<open>src_map.get(key, set())\<close>).\<close>

definition get_set :: "(key \<rightharpoonup> string set) \<Rightarrow> key \<Rightarrow> string set" where
  "get_set src_map k = (case src_map k of None \<Rightarrow> {} | Some S \<Rightarrow> S)"

subsection \<open>An example\<close>

text \<open>
  An image root with the year directory \<^verbatim>\<open>1997\<close>: three images of the object
  \<^verbatim>\<open>1-1997-1063\<close> (one of them in a subdirectory), an image of another object, and a
  text file.
\<close>

definition example_fs :: os where
  "example_fs =
     \<lparr>isdir = (\<lambda>p. p \<in> set [''root'', ''root/1997'', ''root/1997/sub'']),
      isfile = (\<lambda>p. p \<in> set [''root/1997/1-1997-1063-001.JPG'', ''root/1997/1-1997-1063-000.jpg'',
                  ''root/1997/2-1997-9999-000.jpg'', ''root/1997/1-1997-1063-notes.txt'',
                  ''root/1997/sub/1-1997-1063-002.jpg'']),
      listdir = (\<lambda>p.
        if p = ''root'' then Inr [''1997'']
        else if p = ''root/1997''
          then Inr [''1-1997-1063-001.JPG'', ''sub'', ''2-1997-9999-000.jpg'',
                    ''1-1997-1063-000.jpg'', ''1-1997-1063-notes.txt'']
        else if p = ''root/1997/sub'' then Inr [''1-1997-1063-002.jpg'']
        else Inl OSError)\<rparr>"

definition example_meta :: "(pyval \<times> string) list" where
  "example_meta =
     [(Str '' 1 / 1997 / 1063 0'', ''a.xls''),
      (NaN, ''a.xls''),
      (Str ''1/1997/1063 2'', ''b.xls''),
      (Str ''no number here'', ''b.xls''),
      (Num 5, ''a.xls''),
      (Str ''3/2001/050 0'', ''a.xls''),
      (Str ''no number here '', ''c.xls'')]"

text \<open>The linked groups and the misses of the example.\<close>

definition example_rows :: "link_row list" where
  "example_rows =
     [\<lparr>r_obj_id_raw = Str ''1 / 1997 / 1063 0'', r_year = ''1997'',
       r_base_prefix = ''1-1997-1063-'',
       r_images = [''1-1997-1063-000.jpg'', ''1-1997-1063-001.JPG''],
       r_image_count = 2, r_source_files = ''a.xls, b.xls''\<rparr>]"

definition example_misses :: "miss list" where
  "example_misses =
     [\<lparr>m_obj_id_raw = Str ''no number here'', m_year = None, m_base_prefix = None,
       m_reason = reason_no_number\<rparr>,
      \<lparr>m_obj_id_raw = Num 5, m_year = None, m_base_prefix = None,
       m_reason = reason_no_number\<rparr>,
      \<lparr>m_obj_id_raw = Str ''3/2001/050 0'', m_year = Some ''2001'',
       m_base_prefix = Some ''3-2001-050-'',
       m_reason = reason_no_files ''2001'' ''3-2001-050-''\<rparr>]"

section \<open>Properties of the parser\<close>

text \<open>
  C6 (as amended). On a successful match the parser returns a dictionary with exactly two
  fields: \<^verbatim>\<open>year\<close>, the second captured group, and \<^verbatim>\<open>base_prefix\<close>, built from the first
  three captured groups. The captured group, sequence and series are not fields of
  the result.
\<close>

theorem parse_returns_year_and_prefix:
  assumes "parse_object_number raw = Some d"
  shows "\<exists>s ts g1 year g3 g4.
           raw = Str s \<and> re_search OBJ_RE s = Some ts \<and> groups OBJ_RE ts = [g1, year, g3, g4] \<and>
           d = [(''year'', year), (''base_prefix'', g1 @ ''-'' @ year @ ''-'' @ g3 @ ''-'')]"
  using assms
  by (auto simp: parse_object_number_def split: pyval.splits option.splits list.splits)

theorem parse_returns_year_and_prefix_witness:
  "parse_object_number (Str ''1/1997/1063 0'') =
     Some [(''year'', ''1997''), (''base_prefix'', ''1-1997-1063-'')] \<and>
   (\<exists>s ts g1 year g3 g4.
      Str ''1/1997/1063 0'' = Str s \<and> re_search OBJ_RE s = Some ts \<and>
      groups OBJ_RE ts = [g1, year, g3, g4] \<and>
      [(''year'', ''1997''), (''base_prefix'', ''1-1997-1063-'')] =
        [(''year'', year), (''base_prefix'', g1 @ ''-'' @ year @ ''-'' @ g3 @ ''-'')])"
proof -
  have h: "parse_object_number (Str ''1/1997/1063 0'') =
     Some [(''year'', ''1997''), (''base_prefix'', ''1-1997-1063-'')]"
    by code_simp
  from parse_returns_year_and_prefix [OF h] h show ?thesis by simp
qed

text \<open>
  The claim as written fails: for the identifier \<^verbatim>\<open>1/1997/1063 0\<close> the match succeeds
  with the groups 1, 1997, 1063 and 0, and the result has no field \<^verbatim>\<open>group\<close>,
  \<^verbatim>\<open>sequence\<close> or \<^verbatim>\<open>series\<close>.
\<close>

theorem parse_four_fields_counterexample:
  "map_option (groups OBJ_RE) (re_search OBJ_RE ''1/1997/1063 0'') =
     Some [''1'', ''1997'', ''1063'', ''0''] \<and>
   map_option (\<lambda>d. (map_of d ''group'', map_of d ''sequence'', map_of d ''series''))
     (parse_object_number (Str ''1/1997/1063 0'')) = Some (None, None, None)"
  by code_simp

section \<open>The matcher\<close>

text \<open>The defining equation of \<open>backtrack\<close> is applied by hand only.\<close>

declare backtrack.simps [simp del]

lemma backtrack_first: "f k = Some r \<Longrightarrow> backtrack f l k = Some r"
  by (subst backtrack.simps) simp

lemma backtrack_skip: "f k = None \<Longrightarrow> l < k \<Longrightarrow> backtrack f l k = backtrack f l (k - 1)"
  by (subst backtrack.simps) simp

lemma backtrack_SomeD:
  "backtrack f l k = Some r \<Longrightarrow> l \<le> k \<Longrightarrow>
     \<exists>j. l \<le> j \<and> j \<le> k \<and> f j = Some r \<and> (\<forall>i. j < i \<and> i \<le> k \<longrightarrow> f i = None)"
proof (induction k)
  case 0
  then show ?case by (subst (asm) backtrack.simps) (auto split: option.splits)
next
  case (Suc k)
  show ?case
  proof (cases "f (Suc k)")
    case (Some a)
    with Suc.prems show ?thesis by (subst (asm) backtrack.simps) auto
  next
    case None
    show ?thesis
    proof (cases "Suc k \<le> l")
      case True
      with None Suc.prems show ?thesis by (subst (asm) backtrack.simps) auto
    next
      case False
      from False have lk: "l \<le> k" by simp
      from None False Suc.prems(1) have "backtrack f l k = Some r"
        by (subst (asm) backtrack.simps) simp
      from Suc.IH [OF this lk] obtain j where j: "l \<le> j" "j \<le> k" "f j = Some r"
        "\<forall>i. j < i \<and> i \<le> k \<longrightarrow> f i = None" by blast
      have "\<forall>i. j < i \<and> i \<le> Suc k \<longrightarrow> f i = None"
        using j(4) None by (auto simp: le_Suc_eq)
      with j show ?thesis by (intro exI [of _ j]) simp
    qed
  qed
qed

lemma backtrack_NoneI:
  "(\<And>j. l \<le> j \<Longrightarrow> j \<le> k \<Longrightarrow> f j = None) \<Longrightarrow> l \<le> k \<Longrightarrow> backtrack f l k = None"
proof (induction k)
  case 0
  then show ?case by (subst backtrack.simps) simp
next
  case (Suc k)
  show ?case
  proof (cases "Suc k \<le> l")
    case True
    with Suc.prems show ?thesis by (subst backtrack.simps) simp
  next
    case False
    then have "backtrack f l k = None" using Suc by simp
    with Suc.prems False show ?thesis by (subst backtrack.simps) simp
  qed
qed

lemma backtrack_cong_le:
  "(\<And>j. j \<le> k \<Longrightarrow> f j = g j) \<Longrightarrow> backtrack f l k = backtrack g l k"
proof (induction k)
  case 0
  then show ?case by (subst (1 2) backtrack.simps) simp
next
  case (Suc k)
  then have "backtrack f l k = backtrack g l k" "f (Suc k) = g (Suc k)" by simp_all
  then show ?case by (subst (1 2) backtrack.simps) (simp split: option.splits)
qed

lemma backtrack_skip_many:
  "(\<And>j. n < j \<Longrightarrow> j \<le> k \<Longrightarrow> f j = None) \<Longrightarrow> l \<le> n \<Longrightarrow> n \<le> k
     \<Longrightarrow> backtrack f l k = backtrack f l n"
proof (induction k)
  case 0
  then show ?case by simp
next
  case (Suc k)
  show ?case
  proof (cases "n = Suc k")
    case True
    then show ?thesis by simp
  next
    case False
    with Suc.prems have "f (Suc k) = None" "l < Suc k" "backtrack f l k = backtrack f l n"
      using Suc.IH by auto
    then show ?thesis by (simp add: backtrack_skip)
  qed
qed

lemma digit_not_space: "is_digit c \<Longrightarrow> \<not> is_space c"
  by (auto simp: is_digit_def is_space_def)

lemma slash_not_digit: "\<not> is_digit (CHR ''/'')"
  by (simp add: is_digit_def)

lemma slash_not_space: "\<not> is_space (CHR ''/'')"
  by (simp add: is_space_def)

lemma takeWhile_run:
  "list_all P t \<Longrightarrow> rest = [] \<or> \<not> P (hd rest) \<Longrightarrow> takeWhile P (t @ rest) = t"
  by (cases rest) (auto simp: list_all_iff takeWhile_append2)

lemma greedy_le_length: "greedy p s \<le> length s"
  by (auto simp: greedy_def Let_def length_takeWhile_le min.coboundedI1 split: option.splits)

lemma take_takeWhile_all: "k \<le> length (takeWhile P s) \<Longrightarrow> list_all P (take k s)"
proof (induction s arbitrary: k)
  case Nil
  then show ?case by simp
next
  case (Cons a s)
  then show ?case by (cases k) (auto split: if_splits)
qed

lemma greedy_take_class:
  assumes "k \<le> greedy p s"
  shows "list_all (in_class (cls p)) (take k s)"
proof -
  have "k \<le> length (takeWhile (in_class (cls p)) s)"
    using assms by (auto simp: greedy_def Let_def split: option.splits)
  then show ?thesis by (rule take_takeWhile_all)
qed

lemma greedy_hi: "hi p = Some h \<Longrightarrow> greedy p s \<le> h"
  by (simp add: greedy_def)

lemma match_here_Cons_SomeD:
  assumes "match_here (p # ps) s = Some ts"
  shows "\<exists>j ts'. lo p \<le> j \<and> j \<le> greedy p s \<and> ts = take j s # ts' \<and>
           match_here ps (drop j s) = Some ts'"
proof -
  from assms have ge: "lo p \<le> greedy p s"
    and bt: "backtrack (\<lambda>k. map_option (Cons (take k s)) (match_here ps (drop k s))) (lo p)
               (greedy p s) = Some ts"
    by (auto simp: Let_def split: if_splits)
  from backtrack_SomeD [OF bt ge] show ?thesis by auto
qed

lemma match_here_sound:
  "match_here ps s = Some ts \<Longrightarrow> list_all2 piece_text ps ts \<and> (\<exists>rest. s = concat ts @ rest)"
proof (induction ps arbitrary: s ts)
  case Nil
  then show ?case by simp
next
  case (Cons p ps)
  from match_here_Cons_SomeD [OF Cons.prems] obtain j ts' where
    j: "lo p \<le> j" "j \<le> greedy p s" "ts = take j s # ts'" "match_here ps (drop j s) = Some ts'"
    by blast
  from Cons.IH [OF j(4)] obtain rest where
    ih: "list_all2 piece_text ps ts'" "drop j s = concat ts' @ rest" by blast
  have jl: "j \<le> length s" using j(2) greedy_le_length [of p s] by simp
  have len: "length (take j s) = j" using jl by simp
  have hib: "case hi p of None \<Rightarrow> True | Some h \<Rightarrow> j \<le> h"
    using j(2) greedy_hi [of p _ s] by (cases "hi p") auto
  have pt: "piece_text p (take j s)"
    unfolding piece_text_def len using j(1) greedy_take_class [OF j(2)] hib by simp
  have "s = take j s @ drop j s" by simp
  then have "s = concat ts @ rest"
    unfolding j(3) ih(2) by simp
  then show ?case using ih(1) j(3) pt by auto
qed

lemma match_here_step:
  assumes pt: "piece_text p t"
    and nxt: "rest = [] \<or> \<not> in_class (cls p) (hd rest) \<or> hi p = Some (length t)"
    and rec: "match_here ps rest = Some ts"
  shows "match_here (p # ps) (t @ rest) = Some (t # ts)"
proof -
  have all: "list_all (in_class (cls p)) t" and lo: "lo p \<le> length t"
    using pt by (simp_all add: piece_text_def)
  have g: "greedy p (t @ rest) = length t"
  proof (cases "hi p = Some (length t)")
    case True
    have "takeWhile (in_class (cls p)) (t @ rest) = t @ takeWhile (in_class (cls p)) rest"
      using all by (simp add: list_all_iff takeWhile_append2)
    with True show ?thesis by (simp add: greedy_def)
  next
    case False
    with nxt have "rest = [] \<or> \<not> in_class (cls p) (hd rest)" by simp
    with all have "takeWhile (in_class (cls p)) (t @ rest) = t"
      by (rule takeWhile_run)
    with pt show ?thesis by (auto simp: greedy_def piece_text_def split: option.splits)
  qed
  show ?thesis using g lo rec by (simp add: backtrack_first)
qed

lemma piece_text_lit:
  "piece_text (Piece b (Lit c) 1 (Some 1)) t \<longleftrightarrow> t = [c]"
proof
  assume a: "piece_text (Piece b (Lit c) 1 (Some 1)) t"
  then have "length t = 1" by (simp add: piece_text_def)
  then obtain x where "t = [x]" by (cases t) auto
  with a show "t = [c]" by (simp add: piece_text_def)
qed (simp add: piece_text_def)

lemma piece_text_digits:
  "piece_text (Piece b Digit l h) t \<longleftrightarrow>
     list_all is_digit t \<and> l \<le> length t \<and> (case h of None \<Rightarrow> True | Some m \<Rightarrow> length t \<le> m)"
  by (simp add: piece_text_def list_all_iff)

lemma piece_text_spaces:
  "piece_text (Piece b Space l None) t \<longleftrightarrow> list_all is_space t \<and> l \<le> length t"
  by (simp add: piece_text_def list_all_iff)

lemma groups_OBJ_RE:
  "groups OBJ_RE [t1, t2, t3, t4, t5, t6, t7, t8, t9, t10, t11] = [t1, t5, t9, t11]"
  by (simp add: groups_def OBJ_RE_def)

lemma match_OBJ_RE_sound:
  assumes "match_here OBJ_RE u = Some ts"
  shows "\<exists>g y q sr t post. u = t @ post \<and> obj_pattern g y q t \<and> groups OBJ_RE ts = [g, y, q, sr]"
proof -
  from match_here_sound [OF assms] obtain rest where
    la: "list_all2 piece_text OBJ_RE ts" and u: "u = concat ts @ rest" by blast
  from la obtain t1 t2 t3 t4 t5 t6 t7 t8 t9 t10 t11 where
    ts: "ts = [t1, t2, t3, t4, t5, t6, t7, t8, t9, t10, t11]"
    and p1: "piece_text (Piece True Digit 1 None) t1"
    and p2: "piece_text (Piece False Space 0 None) t2"
    and p3: "piece_text (Piece False (Lit (CHR ''/'')) 1 (Some 1)) t3"
    and p4: "piece_text (Piece False Space 0 None) t4"
    and p5: "piece_text (Piece True Digit 4 (Some 4)) t5"
    and p6: "piece_text (Piece False Space 0 None) t6"
    and p7: "piece_text (Piece False (Lit (CHR ''/'')) 1 (Some 1)) t7"
    and p8: "piece_text (Piece False Space 0 None) t8"
    and p9: "piece_text (Piece True Digit 3 (Some 4)) t9"
    and p10: "piece_text (Piece False Space 1 None) t10"
    and p11: "piece_text (Piece True Digit 1 None) t11"
    unfolding OBJ_RE_def by (auto simp: list_all2_Cons1)
  from p3 have t3: "t3 = ''/''" by (rule piece_text_lit [THEN iffD1])
  from p7 have t7: "t7 = ''/''" by (rule piece_text_lit [THEN iffD1])
  from p9 have q34: "length t9 = 3 \<or> length t9 = 4"
    by (auto simp: piece_text_digits)
  have pat: "obj_pattern t1 t5 t9 (t1 @ t2 @ ''/'' @ t4 @ t5 @ t6 @ ''/'' @ t8 @ t9 @ t10 @ t11)"
    unfolding obj_pattern_def
    apply (rule exI [of _ t2], rule exI [of _ t4], rule exI [of _ t6], rule exI [of _ t8],
        rule exI [of _ t10], rule exI [of _ t11])
    using p1 p2 p4 p5 p6 p8 p9 p10 p11 q34
    by (auto simp: piece_text_digits piece_text_spaces)
  have "u = (t1 @ t2 @ ''/'' @ t4 @ t5 @ t6 @ ''/'' @ t8 @ t9 @ t10 @ t11) @ rest"
    using u ts t3 t7 by simp
  with pat show ?thesis unfolding ts groups_OBJ_RE by blast
qed

lemma hd_digits_not_space: "list_all is_digit t \<Longrightarrow> t \<noteq> [] \<Longrightarrow> \<not> is_space (hd (t @ r))"
  by (cases t) (auto simp: digit_not_space)

lemma hd_spaces_not_digit: "list_all is_space t \<Longrightarrow> t \<noteq> [] \<Longrightarrow> \<not> is_digit (hd (t @ r))"
  by (cases t) (auto dest: digit_not_space)

lemma hd_spaces_slash_not_digit: "list_all is_space t \<Longrightarrow> \<not> is_digit (hd (t @ CHR ''/'' # r))"
  by (cases t) (auto dest: digit_not_space simp: slash_not_digit)

lemma match_OBJ_RE_complete:
  assumes "obj_pattern g y q t"
  shows "\<exists>ts sr. match_here OBJ_RE (t @ post) = Some ts \<and> groups OBJ_RE ts = [g, y, q, sr]"
proof -
  from assms obtain w1 w2 w3 w4 w5 sr where
    t: "t = g @ w1 @ ''/'' @ w2 @ y @ w3 @ ''/'' @ w4 @ q @ w5 @ sr"
    and g: "g \<noteq> []" "list_all is_digit g"
    and y: "length y = 4" "list_all is_digit y"
    and q: "length q = 3 \<or> length q = 4" "list_all is_digit q"
    and sr: "sr \<noteq> []" "list_all is_digit sr"
    and w: "list_all is_space w1" "list_all is_space w2" "list_all is_space w3"
      "list_all is_space w4" "w5 \<noteq> []" "list_all is_space w5"
    unfolding obj_pattern_def by blast
  define d where "d = takeWhile is_digit post"
  define r11 where "r11 = dropWhile is_digit post"
  define r10 where "r10 = (sr @ d) @ r11"
  define r9 where "r9 = w5 @ r10"
  define r8 where "r8 = q @ r9"
  define r7 where "r7 = w4 @ r8"
  define r6 where "r6 = ''/'' @ r7"
  define r5 where "r5 = w3 @ r6"
  define r4 where "r4 = y @ r5"
  define r3 where "r3 = w2 @ r4"
  define r2 where "r2 = ''/'' @ r3"
  define r1 where "r1 = w1 @ r2"
  have ynz: "y \<noteq> []" and qnz: "q \<noteq> []" using y(1) q(1) by auto
  have d: "list_all is_digit d" unfolding d_def list_all_iff by (meson set_takeWhileD)
  have m11: "match_here [Piece True Digit 1 None] r10 = Some [sr @ d]"
    unfolding r10_def
    by (rule match_here_step)
      (use sr d hd_dropWhile [of is_digit post] in \<open>auto simp: piece_text_digits r11_def Suc_le_eq\<close>)
  have m10: "match_here [Piece False Space 1 None, Piece True Digit 1 None] r9
      = Some [w5, sr @ d]"
    unfolding r9_def
    by (rule match_here_step [OF _ _ m11])
      (use w sr hd_digits_not_space [of sr] in \<open>auto simp: piece_text_spaces Suc_le_eq r10_def\<close>)
  have m9: "match_here [Piece True Digit 3 (Some 4), Piece False Space 1 None,
      Piece True Digit 1 None] r8 = Some [q, w5, sr @ d]"
    unfolding r8_def
    by (rule match_here_step [OF _ _ m10])
      (use q w hd_spaces_not_digit [of w5] in \<open>auto simp: piece_text_digits r9_def\<close>)
  have m8: "match_here [Piece False Space 0 None, Piece True Digit 3 (Some 4),
      Piece False Space 1 None, Piece True Digit 1 None] r7 = Some [w4, q, w5, sr @ d]"
    unfolding r7_def
    by (rule match_here_step [OF _ _ m9])
      (use q qnz w hd_digits_not_space [of q] in \<open>auto simp: piece_text_spaces r8_def\<close>)
  have m7: "match_here [Piece False (Lit (CHR ''/'')) 1 (Some 1), Piece False Space 0 None,
      Piece True Digit 3 (Some 4), Piece False Space 1 None, Piece True Digit 1 None] r6
      = Some [''/'', w4, q, w5, sr @ d]"
    unfolding r6_def
    by (rule match_here_step [OF _ _ m8]) (simp_all add: piece_text_def)
  have m6: "match_here [Piece False Space 0 None, Piece False (Lit (CHR ''/'')) 1 (Some 1),
      Piece False Space 0 None, Piece True Digit 3 (Some 4), Piece False Space 1 None,
      Piece True Digit 1 None] r5 = Some [w3, ''/'', w4, q, w5, sr @ d]"
    unfolding r5_def
    by (rule match_here_step [OF _ _ m7])
      (use w in \<open>auto simp: piece_text_spaces slash_not_space r6_def\<close>)
  have m5: "match_here [Piece True Digit 4 (Some 4), Piece False Space 0 None,
      Piece False (Lit (CHR ''/'')) 1 (Some 1),
      Piece False Space 0 None, Piece True Digit 3 (Some 4), Piece False Space 1 None,
      Piece True Digit 1 None] r4 = Some [y, w3, ''/'', w4, q, w5, sr @ d]"
    unfolding r4_def
    by (rule match_here_step [OF _ _ m6])
      (use y in \<open>auto simp: piece_text_digits\<close>)
  have m4: "match_here [Piece False Space 0 None, Piece True Digit 4 (Some 4),
      Piece False Space 0 None, Piece False (Lit (CHR ''/'')) 1 (Some 1),
      Piece False Space 0 None, Piece True Digit 3 (Some 4), Piece False Space 1 None,
      Piece True Digit 1 None] r3 = Some [w2, y, w3, ''/'', w4, q, w5, sr @ d]"
    unfolding r3_def
    by (rule match_here_step [OF _ _ m5])
      (use y ynz w hd_digits_not_space [of y] in \<open>auto simp: piece_text_spaces r4_def\<close>)
  have m3: "match_here [Piece False (Lit (CHR ''/'')) 1 (Some 1),
      Piece False Space 0 None, Piece True Digit 4 (Some 4),
      Piece False Space 0 None, Piece False (Lit (CHR ''/'')) 1 (Some 1),
      Piece False Space 0 None, Piece True Digit 3 (Some 4), Piece False Space 1 None,
      Piece True Digit 1 None] r2 = Some [''/'', w2, y, w3, ''/'', w4, q, w5, sr @ d]"
    unfolding r2_def
    by (rule match_here_step [OF _ _ m4]) (simp_all add: piece_text_def)
  have m2: "match_here [Piece False Space 0 None, Piece False (Lit (CHR ''/'')) 1 (Some 1),
      Piece False Space 0 None, Piece True Digit 4 (Some 4),
      Piece False Space 0 None, Piece False (Lit (CHR ''/'')) 1 (Some 1),
      Piece False Space 0 None, Piece True Digit 3 (Some 4), Piece False Space 1 None,
      Piece True Digit 1 None] r1 = Some [w1, ''/'', w2, y, w3, ''/'', w4, q, w5, sr @ d]"
    unfolding r1_def
    by (rule match_here_step [OF _ _ m3])
      (use w in \<open>auto simp: piece_text_spaces slash_not_space r2_def\<close>)
  have m1: "match_here OBJ_RE (g @ r1) = Some [g, w1, ''/'', w2, y, w3, ''/'', w4, q, w5, sr @ d]"
    unfolding OBJ_RE_def
    by (rule match_here_step [OF _ _ m2])
      (use g w hd_spaces_slash_not_digit [of w1] in
        \<open>auto simp: piece_text_digits Suc_le_eq r1_def r2_def\<close>)
  have "t @ post = g @ r1"
    unfolding t r1_def r2_def r3_def r4_def r5_def r6_def r7_def r8_def r9_def r10_def r11_def d_def
    by simp
  with m1 show ?thesis by (simp add: groups_OBJ_RE)
qed

lemma re_search_hit: "match_here ps u = Some ts \<Longrightarrow> re_search ps u = Some ts"
  by (cases u) simp_all

lemma re_search_skip:
  "(\<And>i. i < length pre \<Longrightarrow> match_here ps (drop i (pre @ u)) = None)
     \<Longrightarrow> re_search ps (pre @ u) = re_search ps u"
proof (induction pre)
  case Nil
  then show ?case by simp
next
  case (Cons c pre)
  have "match_here ps ((c # pre) @ u) = None" using Cons.prems [of 0] by simp
  moreover have "re_search ps (pre @ u) = re_search ps u"
  proof (rule Cons.IH)
    fix i assume "i < length pre"
    then show "match_here ps (drop i (pre @ u)) = None" using Cons.prems [of "Suc i"] by simp
  qed
  ultimately show ?case by simp
qed

lemma re_search_SomeD:
  "re_search ps s = Some ts \<Longrightarrow>
     \<exists>i\<le>length s. match_here ps (drop i s) = Some ts \<and>
       (\<forall>j<i. match_here ps (drop j s) = None)"
proof (induction s)
  case Nil
  then show ?case by simp
next
  case (Cons c s)
  show ?case
  proof (cases "match_here ps (c # s)")
    case None
    with Cons.prems have "re_search ps s = Some ts" by simp
    from Cons.IH [OF this] obtain i where i: "i \<le> length s"
      "match_here ps (drop i s) = Some ts" "\<forall>j<i. match_here ps (drop j s) = None"
      by blast
    have "\<forall>j<Suc i. match_here ps (drop j (c # s)) = None"
    proof (intro allI impI)
      fix j assume "j < Suc i"
      then show "match_here ps (drop j (c # s)) = None"
        using None i(3) by (cases j) simp_all
    qed
    with i(1,2) show ?thesis by (intro exI [of _ "Suc i"]) simp
  next
    case (Some a)
    with Cons.prems show ?thesis by (intro exI [of _ 0]) simp
  qed
qed

lemma re_search_NoneI:
  "(\<And>i. i \<le> length s \<Longrightarrow> match_here ps (drop i s) = None) \<Longrightarrow> re_search ps s = None"
proof (induction s)
  case Nil
  then show ?case by simp
next
  case (Cons c s)
  have "match_here ps (c # s) = None" using Cons.prems [of 0] by simp
  moreover have "re_search ps s = None"
  proof (rule Cons.IH)
    fix i assume "i \<le> length s"
    then show "match_here ps (drop i s) = None" using Cons.prems [of "Suc i"] by simp
  qed
  ultimately show ?case by simp
qed

lemma occurs_at_match:
  "occurs_at s i \<longleftrightarrow> i \<le> length s \<and> match_here OBJ_RE (drop i s) \<noteq> None"
proof
  assume "occurs_at s i"
  then obtain g y q t post where "i \<le> length s" "drop i s = t @ post" "obj_pattern g y q t"
    unfolding occurs_at_def by blast
  then show "i \<le> length s \<and> match_here OBJ_RE (drop i s) \<noteq> None"
    using match_OBJ_RE_complete [of g y q t post] by auto
next
  assume a: "i \<le> length s \<and> match_here OBJ_RE (drop i s) \<noteq> None"
  then obtain ts where "match_here OBJ_RE (drop i s) = Some ts" by auto
  from match_OBJ_RE_sound [OF this] a show "occurs_at s i"
    unfolding occurs_at_def by blast
qed

lemma obj_pattern_starts_with_digit:
  assumes "obj_pattern g y q t"
  shows "t \<noteq> [] \<and> is_digit (hd t)"
proof -
  from assms obtain r where "t = g @ r" "g \<noteq> []" "list_all is_digit g"
    unfolding obj_pattern_def by blast
  then show ?thesis by (cases g) auto
qed

lemma occurs_at_digit:
  assumes "occurs_at s i"
  shows "i < length s \<and> is_digit (s ! i)"
proof -
  from assms obtain g y q t post where
    i: "i \<le> length s" and d: "drop i s = t @ post" and p: "obj_pattern g y q t"
    unfolding occurs_at_def by blast
  from obj_pattern_starts_with_digit [OF p] have t: "t \<noteq> []" "is_digit (hd t)" by simp_all
  from d t(1) have ne: "drop i s \<noteq> []" by simp
  then have il: "i < length s" by simp
  have "hd (drop i s) = s ! i" using il by (simp add: hd_drop_conv_nth)
  with d t show ?thesis using il by simp
qed

lemma no_digit_no_occurrence:
  assumes "list_all (\<lambda>c. \<not> is_digit c) pre" and "i < length pre"
  shows "\<not> occurs_at (pre @ u) i"
proof
  assume "occurs_at (pre @ u) i"
  from occurs_at_digit [OF this] have "is_digit ((pre @ u) ! i)" by simp
  with assms show False by (simp add: nth_append list_all_length)
qed

lemma parse_Str_match:
  assumes "re_search OBJ_RE s = Some ts" and "groups OBJ_RE ts = [g, y, q, sr]"
  shows "parse_object_number (Str s) =
           Some [(''year'', y), (''base_prefix'', g @ ''-'' @ y @ ''-'' @ q @ ''-'')]"
  using assms by (simp add: parse_object_number_def)

lemma parse_leftmost:
  assumes pat: "obj_pattern g y q t"
    and first: "\<forall>i<length pre. \<not> occurs_at (pre @ t @ post) i"
  shows "parse_object_number (Str (pre @ t @ post)) =
           Some [(''year'', y), (''base_prefix'', g @ ''-'' @ y @ ''-'' @ q @ ''-'')]"
proof -
  from match_OBJ_RE_complete [OF pat, of post] obtain ts sr where
    m: "match_here OBJ_RE (t @ post) = Some ts" and gr: "groups OBJ_RE ts = [g, y, q, sr]"
    by blast
  have "re_search OBJ_RE (pre @ t @ post) = re_search OBJ_RE (t @ post)"
  proof (rule re_search_skip)
    fix i assume i: "i < length pre"
    with first have "\<not> occurs_at (pre @ t @ post) i" by simp
    with i show "match_here OBJ_RE (drop i (pre @ t @ post)) = None"
      by (simp add: occurs_at_match)
  qed
  with re_search_hit [OF m] have "re_search OBJ_RE (pre @ t @ post) = Some ts" by simp
  from parse_Str_match [OF this gr] show ?thesis .
qed

lemma parse_Str_None:
  assumes "\<forall>i. \<not> occurs_at s i"
  shows "parse_object_number (Str s) = None"
proof -
  have "re_search OBJ_RE s = None"
  proof (rule re_search_NoneI)
    fix i assume "i \<le> length s"
    with assms [rule_format, of i] show "match_here OBJ_RE (drop i s) = None"
      by (simp add: occurs_at_match)
  qed
  then show ?thesis by (simp add: parse_object_number_def)
qed

lemma parse_Some_occurs:
  assumes "parse_object_number raw = Some d"
  shows "\<exists>s i g y q t post. raw = Str s \<and> i \<le> length s \<and> drop i s = t @ post \<and>
           obj_pattern g y q t \<and> (\<forall>j<i. \<not> occurs_at s j) \<and>
           d = [(''year'', y), (''base_prefix'', g @ ''-'' @ y @ ''-'' @ q @ ''-'')]"
proof -
  from assms obtain s ts where raw: "raw = Str s" and rs: "re_search OBJ_RE s = Some ts"
    by (auto simp: parse_object_number_def split: pyval.splits option.splits)
  from re_search_SomeD [OF rs] obtain i where i: "i \<le> length s"
    "match_here OBJ_RE (drop i s) = Some ts" "\<forall>j<i. match_here OBJ_RE (drop j s) = None"
    by blast
  from match_OBJ_RE_sound [OF i(2)] obtain g y q sr t post where
    m: "drop i s = t @ post" "obj_pattern g y q t" "groups OBJ_RE ts = [g, y, q, sr]"
    by blast
  have "\<forall>j<i. \<not> occurs_at s j" using i(3) by (simp add: occurs_at_match)
  moreover have "d = [(''year'', y), (''base_prefix'', g @ ''-'' @ y @ ''-'' @ q @ ''-'')]"
    using parse_Str_match [OF rs m(3)] assms raw by simp
  ultimately show ?thesis using raw i(1) m(1,2) by blast
qed

lemma no_digits_no_occurrence:
  assumes "list_all (\<lambda>c. \<not> is_digit c) s"
  shows "\<not> occurs_at s i"
proof
  assume "occurs_at s i"
  from occurs_at_digit [OF this] assms show False by (auto simp: list_all_length)
qed

text \<open>
  C3 (as amended). The parser returns the key of the leftmost occurrence of the
  pattern: when the text \<open>t\<close> has the form \<open>g/yyyy/sss s\<close> and no occurrence of the
  pattern starts in front of it, the key of \<open>pre @ t @ post\<close> has the year \<open>yyyy\<close> and
  the prefix \<open>g-yyyy-sss-\<close>, whatever the series digits, the text in front and the
  text behind are.
\<close>

theorem parse_key_of_leftmost_occurrence:
  assumes "obj_pattern g y q t"
    and "\<forall>i<length pre. \<not> occurs_at (pre @ t @ post) i"
  shows "parse_object_number (Str (pre @ t @ post)) =
           Some [(''year'', y), (''base_prefix'', g @ ''-'' @ y @ ''-'' @ q @ ''-'')]"
  using assms by (rule parse_leftmost)

theorem parse_key_of_leftmost_occurrence_witness:
  "obj_pattern ''12'' ''1997'' ''1063'' ''12 / 1997 /1063  05'' \<and>
   parse_object_number (Str (''Nr. '' @ ''12 / 1997 /1063  05'' @ ''7 (alt)'')) =
     Some [(''year'', ''1997''), (''base_prefix'', ''12'' @ ''-'' @ ''1997'' @ ''-'' @ ''1063'' @ ''-'')]"
proof -
  have pat: "obj_pattern ''12'' ''1997'' ''1063'' ''12 / 1997 /1063  05''"
    unfolding obj_pattern_def
    by (rule exI [of _ "'' ''"], rule exI [of _ "'' ''"], rule exI [of _ "'' ''"],
        rule exI [of _ "''''"], rule exI [of _ "''  ''"], rule exI [of _ "''05''"])
      (simp add: is_digit_def is_space_def)
  have first: "\<forall>i<length ''Nr. ''. \<not> occurs_at (''Nr. '' @ ''12 / 1997 /1063  05'' @ ''7 (alt)'') i"
    by (intro allI impI no_digit_no_occurrence) (simp_all add: is_digit_def)
  from parse_key_of_leftmost_occurrence [OF pat first] pat show ?thesis by simp
qed

text \<open>
  The claim as written fails when the pattern occurs twice: the string below contains
  \<^verbatim>\<open>2/1998/1064 0\<close>, and the key returned is that of \<^verbatim>\<open>1/1997/1063 0\<close>.
\<close>

theorem parse_second_occurrence_counterexample:
  "obj_pattern ''2'' ''1998'' ''1064'' ''2/1998/1064 0'' \<and>
   parse_object_number (Str (''1/1997/1063 0 '' @ ''2/1998/1064 0'')) =
     Some [(''year'', ''1997''), (''base_prefix'', ''1-1997-1063-'')] \<and>
   parse_object_number (Str (''1/1997/1063 0 '' @ ''2/1998/1064 0'')) \<noteq>
     Some [(''year'', ''1998''), (''base_prefix'', ''2-1998-1064-'')]"
proof -
  have pat: "obj_pattern ''2'' ''1998'' ''1064'' ''2/1998/1064 0''"
    unfolding obj_pattern_def
    by (rule exI [of _ "''''"], rule exI [of _ "''''"], rule exI [of _ "''''"],
        rule exI [of _ "''''"], rule exI [of _ "'' ''"], rule exI [of _ "''0''"])
      (simp add: is_digit_def is_space_def)
  have p: "parse_object_number (Str (''1/1997/1063 0 '' @ ''2/1998/1064 0'')) =
     Some [(''year'', ''1997''), (''base_prefix'', ''1-1997-1063-'')]"
    by code_simp
  from pat p show ?thesis by simp
qed

text \<open>
  C4. The parser returns \<^verbatim>\<open>None\<close> for a value that is not a string, for the empty
  string, and for a string in which the pattern occurs nowhere. The parser has no
  failing branch: it returns for every value.
\<close>

theorem parse_none:
  assumes "(\<forall>s. raw \<noteq> Str s) \<or> raw = Str [] \<or> (\<exists>s. raw = Str s \<and> (\<forall>i. \<not> occurs_at s i))"
  shows "parse_object_number raw = None"
proof -
  consider "\<forall>s. raw \<noteq> Str s" | "raw = Str []" | s where "raw = Str s" "\<forall>i. \<not> occurs_at s i"
    using assms by blast
  then show ?thesis
  proof cases
    case 1
    then show ?thesis by (cases raw) (simp_all add: parse_object_number_def)
  next
    case 2
    then show ?thesis by (simp add: parse_object_number_def OBJ_RE_def greedy_def)
  next
    case 3
    then show ?thesis by (simp add: parse_Str_None)
  qed
qed

theorem parse_none_witness:
  "parse_object_number NaN = None \<and> parse_object_number (Num 1063) = None \<and>
   parse_object_number (Str []) = None \<and> parse_object_number (Str ''no number here'') = None"
proof -
  have "\<forall>i. \<not> occurs_at ''no number here'' i"
    by (intro allI no_digits_no_occurrence) (simp add: is_digit_def)
  then have "parse_object_number (Str ''no number here'') = None"
    by (intro parse_none) blast
  moreover have "parse_object_number NaN = None" by (rule parse_none) simp
  moreover have "parse_object_number (Num 1063) = None" by (rule parse_none) simp
  moreover have "parse_object_number (Str []) = None" by (rule parse_none) simp
  ultimately show ?thesis by simp
qed

lemma startswith_iff: "startswith s p \<longleftrightarrow> (\<exists>rest. s = p @ rest)"
  unfolding startswith_def
  by (metis append_eq_conv_conj append_take_drop_id)

lemma scan_names_eq:
  "scan_names fs yd (lower bp) names out =
     out @ map (path_join yd) (filter (qualifies fs yd bp) names)"
  by (induction names arbitrary: out) (simp_all add: Let_def qualifies_def startswith_iff)

lemma find_matching_eq:
  assumes "isdir fs (path_join root yr)" and "listdir fs (path_join root yr) = Inr names"
  shows "find_matching_files_in_year fs root yr bp =
           Inr (sort (map (path_join (path_join root yr))
                  (filter (qualifies fs (path_join root yr) bp) names)))"
  using assms by (simp add: find_matching_files_in_year_def scan_names_eq Let_def)

lemma find_matching_no_dir:
  assumes "\<not> isdir fs (path_join root yr)"
  shows "find_matching_files_in_year fs root yr bp = Inr []"
  using assms by (simp add: find_matching_files_in_year_def)

lemma path_join_plain:
  assumes "CHR ''/'' \<notin> set n"
  shows "path_join yd n = path_join yd [] @ n"
  using assms by (cases n) (auto simp: path_join_def startswith_def)

lemma nested_not_child:
  assumes "CHR ''/'' \<notin> set n"
  shows "path_join yd n \<noteq> path_join yd [] @ sub @ ''/'' @ name"
proof
  assume "path_join yd n = path_join yd [] @ sub @ ''/'' @ name"
  then have "n = sub @ ''/'' @ name" by (simp add: path_join_plain [OF assms])
  with assms show False by simp
qed


section \<open>Properties of the resolver\<close>

text \<open>
  C5. When the directory of the year does not exist, the resolver returns the empty
  list: the test with \<^verbatim>\<open>os.path.isdir\<close> comes before \<^verbatim>\<open>os.listdir\<close>, so the
  exception that \<^verbatim>\<open>os.listdir\<close> would raise cannot arise.
\<close>

theorem resolve_missing_year_directory:
  assumes "\<not> isdir fs (path_join images_root yr)"
  shows "find_matching_files_in_year fs images_root yr base_prefix = Inr []"
  using assms by (rule find_matching_no_dir)

theorem resolve_missing_year_directory_witness:
  "\<not> isdir example_fs (path_join ''root'' ''2001'') \<and>
   listdir example_fs (path_join ''root'' ''2001'') = Inl OSError \<and>
   find_matching_files_in_year example_fs ''root'' ''2001'' ''3-2001-050-'' = Inr []"
proof -
  have h: "\<not> isdir example_fs (path_join ''root'' ''2001'')"
    by (simp add: example_fs_def path_join_def startswith_def endswith_def)
  have "listdir example_fs (path_join ''root'' ''2001'') = Inl OSError"
    by (simp add: example_fs_def path_join_def startswith_def endswith_def)
  with h resolve_missing_year_directory [OF h, of "''3-2001-050-''"] show ?thesis by simp
qed

text \<open>
  C2. When the directory of the year exists and can be listed, the resolver returns
  the sorted list of the paths of its entries that qualify: regular files with an
  allowed extension whose name begins with the prefix, both in lower case. Every
  path returned is that of a direct entry; a path below a subdirectory is never
  returned.
\<close>

theorem resolve_direct_children:
  assumes "isdir fs (path_join images_root yr)"
    and "listdir fs (path_join images_root yr) = Inr names"
  shows "\<exists>res. find_matching_files_in_year fs images_root yr base_prefix = Inr res \<and>
           res = sort (map (path_join (path_join images_root yr))
                   (filter (qualifies fs (path_join images_root yr) base_prefix) names)) \<and>
           sorted res \<and>
           set res = path_join (path_join images_root yr) `
                       {n \<in> set names. qualifies fs (path_join images_root yr) base_prefix n} \<and>
           (plain_names names \<longrightarrow>
              (\<forall>sub name. path_join (path_join images_root yr) [] @ sub @ ''/'' @ name \<notin> set res))"
proof -
  let ?yd = "path_join images_root yr"
  let ?res = "sort (map (path_join ?yd) (filter (qualifies fs ?yd base_prefix) names))"
  have eq: "find_matching_files_in_year fs images_root yr base_prefix = Inr ?res"
    using assms by (rule find_matching_eq)
  have st: "set ?res = path_join ?yd ` {n \<in> set names. qualifies fs ?yd base_prefix n}"
    by auto
  have nested: "path_join ?yd [] @ sub @ ''/'' @ name \<notin> set ?res"
    if pn: "plain_names names" for sub name
  proof
    assume "path_join ?yd [] @ sub @ ''/'' @ name \<in> set ?res"
    then obtain n where n: "n \<in> set names"
      "path_join ?yd n = path_join ?yd [] @ sub @ ''/'' @ name"
      unfolding st by auto
    from pn n(1) have "CHR ''/'' \<notin> set n" by (simp add: plain_names_def list_all_iff)
    from nested_not_child [OF this] n(2) show False by simp
  qed
  from eq st nested show ?thesis by (intro exI [of _ ?res]) simp
qed

theorem resolve_direct_children_witness:
  "find_matching_files_in_year example_fs ''root'' ''1997'' ''1-1997-1063-'' =
     Inr [''root/1997/1-1997-1063-000.jpg'', ''root/1997/1-1997-1063-001.JPG''] \<and>
   isfile example_fs (''root/1997/'' @ ''sub'' @ ''/'' @ ''1-1997-1063-002.jpg'') \<and>
   ''root/1997/'' @ ''sub'' @ ''/'' @ ''1-1997-1063-002.jpg'' \<notin>
     set [''root/1997/1-1997-1063-000.jpg'', ''root/1997/1-1997-1063-001.JPG'']"
proof -
  let ?names = "[''1-1997-1063-001.JPG'', ''sub'', ''2-1997-9999-000.jpg'',
                 ''1-1997-1063-000.jpg'', ''1-1997-1063-notes.txt'']"
  have yd: "path_join ''root'' ''1997'' = ''root/1997''"
    and yd': "path_join ''root/1997'' [] = ''root/1997/''"
    by (simp_all add: path_join_def startswith_def endswith_def)
  have d: "isdir example_fs (path_join ''root'' ''1997'')"
    and l: "listdir example_fs (path_join ''root'' ''1997'') = Inr ?names"
    unfolding yd by (simp_all add: example_fs_def)
  have pn: "plain_names ?names" by (simp add: plain_names_def)
  have ev: "find_matching_files_in_year example_fs ''root'' ''1997'' ''1-1997-1063-'' =
     Inr [''root/1997/1-1997-1063-000.jpg'', ''root/1997/1-1997-1063-001.JPG'']"
    by code_simp
  from resolve_direct_children [OF d l, of "''1-1997-1063-''"] obtain res where
    r: "find_matching_files_in_year example_fs ''root'' ''1997'' ''1-1997-1063-'' = Inr res"
    and n: "plain_names ?names \<longrightarrow>
      (\<forall>sub name. path_join (path_join ''root'' ''1997'') [] @ sub @ ''/'' @ name \<notin> set res)"
    by blast
  from r ev have res: "res = [''root/1997/1-1997-1063-000.jpg'', ''root/1997/1-1997-1063-001.JPG'']"
    by simp
  from n pn have "path_join (path_join ''root'' ''1997'') [] @ ''sub'' @ ''/'' @ ''1-1997-1063-002.jpg''
      \<notin> set res" by blast
  then have "''root/1997/'' @ ''sub'' @ ''/'' @ ''1-1997-1063-002.jpg'' \<notin>
     set [''root/1997/1-1997-1063-000.jpg'', ''root/1997/1-1997-1063-001.JPG'']"
    unfolding yd yd' res .
  moreover have "isfile example_fs (''root/1997/'' @ ''sub'' @ ''/'' @ ''1-1997-1063-002.jpg'')"
    by (simp add: example_fs_def)
  ultimately show ?thesis using ev by blast
qed

subsection \<open>White space around an identifier\<close>

lemma match_here_single:
  "match_here [p] s = (if greedy p s < lo p then None else Some [take (greedy p s) s])"
  by (simp add: Let_def backtrack_first)

lemma in_class_Digit: "in_class Digit = is_digit"
  by (rule ext) simp

lemma in_class_Space: "in_class Space = is_space"
  by (rule ext) simp

lemma takeWhile_digit_spaces:
  assumes "list_all is_space w"
  shows "takeWhile is_digit (u @ w) = takeWhile is_digit u"
proof (cases "\<forall>x\<in>set u. is_digit x")
  case True
  have w: "takeWhile is_digit w = []"
    using assms by (cases w) (auto dest: digit_not_space)
  have u: "takeWhile is_digit u = u" using True by (simp add: takeWhile_eq_all_conv)
  have "takeWhile is_digit (u @ w) = u @ takeWhile is_digit w"
    using True by (simp add: takeWhile_append2)
  then show ?thesis unfolding w u by simp
next
  case False
  then show ?thesis by (auto simp: takeWhile_append1)
qed

lemma match_here_spaces_None:
  assumes "ends_with_digits ps" and "list_all is_space w"
  shows "match_here ps w = None"
  using assms
proof (induction ps arbitrary: w)
  case Nil
  then show ?case by (simp add: ends_with_digits_def)
next
  case (Cons p ps)
  show ?case
  proof (cases "ps = []")
    case True
    with Cons.prems(1) have p: "cls p = Digit" "1 \<le> lo p" by (simp_all add: ends_with_digits_def)
    have "takeWhile is_digit w = []"
      using Cons.prems(2) by (cases w) (auto dest: digit_not_space)
    then have "greedy p w = 0"
      using p by (simp add: greedy_def in_class_Digit Let_def split: option.splits)
    with p show ?thesis by simp
  next
    case False
    with Cons.prems(1) have e: "ends_with_digits ps" by (simp add: ends_with_digits_def)
    have "match_here ps (drop k w) = None" for k
      using Cons.IH [OF e] Cons.prems(2)
      by (metis append_take_drop_id list_all_append)
    then have "backtrack (\<lambda>k. map_option (Cons (take k w)) (match_here ps (drop k w))) (lo p)
        (greedy p w) = None" if "lo p \<le> greedy p w"
      using that by (intro backtrack_NoneI) simp_all
    then show ?thesis by (simp add: Let_def)
  qed
qed


lemma takeWhile_append_length:
  "length (takeWhile P u) \<le> length (takeWhile P (u @ w)) \<and>
   (length (takeWhile P u) < length (takeWhile P (u @ w)) \<longrightarrow> length (takeWhile P u) = length u)"
proof (cases "\<forall>x\<in>set u. P x")
  case True
  then have a: "takeWhile P u = u" and b: "takeWhile P (u @ w) = u @ takeWhile P w"
    by (simp_all add: takeWhile_eq_all_conv takeWhile_append2)
  show ?thesis unfolding a b by simp
next
  case False
  then have "takeWhile P (u @ w) = takeWhile P u" by (auto simp: takeWhile_append1)
  then show ?thesis by simp
qed

lemma greedy_append:
  "greedy p u \<le> greedy p (u @ w) \<and>
   (greedy p u < greedy p (u @ w) \<longrightarrow> greedy p u = length u)"
  using takeWhile_append_length [of "in_class (cls p)" u w]
  by (auto simp: greedy_def Let_def split: option.splits)

lemma match_here_trailing_spaces:
  assumes "ends_with_digits ps" and "list_all is_space w"
  shows "match_here ps (u @ w) = match_here ps u"
  using assms
proof (induction ps arbitrary: u w)
  case Nil
  then show ?case by simp
next
  case (Cons p ps)
  show ?case
  proof (cases "ps = []")
    case True
    with Cons.prems(1) have p: "cls p = Digit" by (simp add: ends_with_digits_def)
    have g: "greedy p (u @ w) = greedy p u"
      using takeWhile_digit_spaces [OF Cons.prems(2), of u] p
      by (simp add: greedy_def in_class_Digit)
    have tk: "take (greedy p u) (u @ w) = take (greedy p u) u"
      using greedy_le_length [of p u] by simp
    show ?thesis unfolding True match_here_single g tk ..
  next
    case False
    with Cons.prems(1) have e: "ends_with_digits ps" by (simp add: ends_with_digits_def)
    let ?f' = "\<lambda>k. map_option (Cons (take k (u @ w))) (match_here ps (drop k (u @ w)))"
    let ?f = "\<lambda>k. map_option (Cons (take k u)) (match_here ps (drop k u))"
    let ?n' = "greedy p (u @ w)"
    let ?n = "greedy p u"
    have F1: "?f' k = ?f k" if "k \<le> length u" for k
      using that Cons.IH [OF e Cons.prems(2), of "drop k u"] by simp
    have F2: "?f' k = None" if "length u < k" for k
    proof -
      have "list_all is_space (drop (k - length u) w)"
        using Cons.prems(2) by (metis append_take_drop_id list_all_append)
      from match_here_spaces_None [OF e this] that show ?thesis by simp
    qed
    have nl: "?n \<le> length u" by (rule greedy_le_length)
    have G1: "?n \<le> ?n'" and G2: "?n < ?n' \<Longrightarrow> ?n = length u"
      using greedy_append [of p u w] by simp_all
    have same: "backtrack ?f' (lo p) ?n = backtrack ?f (lo p) ?n"
      by (rule backtrack_cong_le) (use nl F1 in simp)
    have "(if ?n' < lo p then None else backtrack ?f' (lo p) ?n') =
          (if ?n < lo p then None else backtrack ?f (lo p) ?n)"
    proof (cases "?n' < lo p")
      case True
      with G1 show ?thesis by simp
    next
      case nlo: False
      show ?thesis
      proof (cases "?n = ?n'")
        case True
        with same nlo show ?thesis by simp
      next
        case False
        with G1 have lt: "?n < ?n'" by simp
        from G2 [OF lt] have nu: "?n = length u" .
        show ?thesis
        proof (cases "lo p \<le> ?n")
          case True
          have "backtrack ?f' (lo p) ?n' = backtrack ?f' (lo p) ?n"
          proof (rule backtrack_skip_many)
            fix j assume "?n < j" "j \<le> ?n'"
            then show "?f' j = None" using F2 [of j] nu by simp
          qed (use True G1 in simp_all)
          with same True nlo show ?thesis by simp
        next
          case False
          have "backtrack ?f' (lo p) ?n' = None"
          proof (rule backtrack_NoneI)
            fix j assume "lo p \<le> j" "j \<le> ?n'"
            with False nu have "length u < j" by simp
            then show "?f' j = None" by (rule F2)
          qed (use nlo in simp)
          with False nlo show ?thesis by simp
        qed
      qed
    qed
    then show ?thesis by (simp add: Let_def)
  qed
qed

lemma re_search_trailing_spaces:
  assumes "ends_with_digits ps" and "list_all is_space w"
  shows "re_search ps (s @ w) = re_search ps s"
proof (induction s)
  case Nil
  have "re_search ps w = None"
  proof (rule re_search_NoneI)
    fix i
    have "list_all is_space (drop i w)"
      using assms(2) by (metis append_take_drop_id list_all_append)
    then show "match_here ps (drop i w) = None" by (rule match_here_spaces_None [OF assms(1)])
  qed
  moreover have "match_here ps [] = None"
    by (rule match_here_spaces_None [OF assms(1)]) simp
  ultimately show ?case by simp
next
  case (Cons c s)
  have "match_here ps (c # s @ w) = match_here ps (c # s)"
    using match_here_trailing_spaces [OF assms, of "c # s"] by simp
  with Cons show ?case by (simp split: option.splits)
qed

lemma match_OBJ_RE_not_digit:
  assumes "\<not> is_digit c"
  shows "match_here OBJ_RE (c # cs) = None"
  using assms by (simp add: OBJ_RE_def greedy_def)

lemma re_search_leading_spaces:
  assumes "list_all is_space w"
  shows "re_search OBJ_RE (w @ s) = re_search OBJ_RE s"
  using assms
proof (induction w)
  case Nil
  then show ?case by simp
next
  case (Cons c w)
  then have "\<not> is_digit c" by (auto dest: digit_not_space)
  then have "match_here OBJ_RE (c # w @ s) = None" by (rule match_OBJ_RE_not_digit)
  with Cons show ?case by simp
qed

lemma ends_with_digits_OBJ_RE: "ends_with_digits OBJ_RE"
  by (simp add: ends_with_digits_def OBJ_RE_def)

lemma strip_decomp:
  "\<exists>lead trail. s = lead @ strip s @ trail \<and> list_all is_space lead \<and> list_all is_space trail"
proof -
  let ?s1 = "dropWhile is_space s"
  have a: "s = takeWhile is_space s @ ?s1" by simp
  have "rev (dropWhile is_space (rev ?s1)) @ rev (takeWhile is_space (rev ?s1)) = ?s1"
    by (simp only: rev_append [symmetric] takeWhile_dropWhile_id rev_rev_ident)
  then have b: "?s1 = strip s @ rev (takeWhile is_space (rev ?s1))"
    by (simp add: strip_def)
  have c: "list_all is_space (takeWhile is_space s)"
    "list_all is_space (rev (takeWhile is_space (rev ?s1)))"
    unfolding list_all_iff by (auto dest: set_takeWhileD)
  from a b have "s = takeWhile is_space s @ strip s @ rev (takeWhile is_space (rev ?s1))"
    by metis
  with c show ?thesis by blast
qed

lemma re_search_strip: "re_search OBJ_RE (strip s) = re_search OBJ_RE s"
proof -
  from strip_decomp [of s] obtain lead trail where
    d: "s = lead @ strip s @ trail" "list_all is_space lead" "list_all is_space trail" by blast
  have "re_search OBJ_RE (lead @ strip s @ trail) = re_search OBJ_RE (strip s @ trail)"
    by (rule re_search_leading_spaces [OF d(2)])
  also have "\<dots> = re_search OBJ_RE (strip s)"
    by (rule re_search_trailing_spaces [OF ends_with_digits_OBJ_RE d(3)])
  finally show ?thesis using d(1) by simp
qed

lemma parse_strip: "parse_object_number (strip_val v) = parse_object_number v"
  by (cases v) (simp_all add: strip_val_def parse_object_number_def re_search_strip)

section \<open>The aggregation\<close>

subsection \<open>One step of each loop\<close>

lemma parse_dict_shape:
  assumes "parse_object_number v = Some d"
  shows "\<exists>y bp. d = [(''year'', y), (''base_prefix'', bp)]"
  using assms
  by (auto simp: parse_object_number_def split: pyval.splits option.splits list.splits)

lemma parts_of_None: "parts_of v = None \<longleftrightarrow> parse_object_number v = None"
proof (cases "parse_object_number v")
  case None
  then show ?thesis by (simp add: parts_of_def)
next
  case (Some d)
  from parse_dict_shape [OF Some] obtain y bp where "d = [(''year'', y), (''base_prefix'', bp)]"
    by blast
  with Some show ?thesis by (simp add: parts_of_def)
qed

lemma parts_of_Some:
  "parts_of v = Some (y, bp) \<longleftrightarrow>
     parse_object_number v = Some [(''year'', y), (''base_prefix'', bp)]"
proof (cases "parse_object_number v")
  case None
  then show ?thesis by (simp add: parts_of_def)
next
  case (Some d)
  from parse_dict_shape [OF Some] obtain y' bp' where
    "d = [(''year'', y'), (''base_prefix'', bp')]" by blast
  with Some show ?thesis by (auto simp: parts_of_def)
qed

lemma link_step_eq:
  "link_step fs images_root src_map raw st =
     (case parts_of raw of
        None \<Rightarrow> Inr (st\<lparr>st_misses := st_misses st @
                  [\<lparr>m_obj_id_raw = raw, m_year = None, m_base_prefix = None,
                    m_reason = reason_no_number\<rparr>]\<rparr>)
      | Some (y, bp) \<Rightarrow>
          if (y, lower bp) \<in> st_seen st then Inr st
          else case find_matching_files_in_year fs images_root y bp of
                 Inl e \<Rightarrow> Inl e
               | Inr ms \<Rightarrow>
                   if ms = []
                   then Inr (st\<lparr>st_seen := insert (y, lower bp) (st_seen st),
                        st_misses := st_misses st @
                          [\<lparr>m_obj_id_raw = raw, m_year = Some y, m_base_prefix = Some bp,
                            m_reason = reason_no_files y bp\<rparr>]\<rparr>)
                   else Inr (st\<lparr>st_seen := insert (y, lower bp) (st_seen st),
                        st_rows := st_rows st @
                          [\<lparr>r_obj_id_raw = raw, r_year = y, r_base_prefix = bp,
                            r_images = map basename ms, r_image_count = length ms,
                            r_source_files = join_str '', ''
                              (sorted_list_of_set (get_set src_map (y, lower bp)))\<rparr>]\<rparr>))"
proof (cases "parts_of raw")
  case None
  then have "parse_object_number raw = None" by (simp add: parts_of_None)
  with None show ?thesis by (simp add: link_step_def falsy_def)
next
  case (Some a)
  obtain y bp where a: "a = (y, bp)" by (cases a)
  with Some have p: "parse_object_number raw = Some [(''year'', y), (''base_prefix'', bp)]"
    by (simp add: parts_of_Some)
  show ?thesis
    unfolding Some a
    by (simp add: link_step_def p falsy_def getitem_def get_set_def Let_def
        split: sum.splits)
qed

lemma isinstance_guard:
  "(case v of Str s \<Rightarrow> parse_object_number v | _ \<Rightarrow> None) = parse_object_number v"
  by (cases v) (simp_all add: parse_object_number_def)

lemma source_step_eq:
  "source_step r src_map =
     Inr (case key_of (fst r) of
            None \<Rightarrow> src_map
          | Some k \<Rightarrow> src_map(k \<mapsto> insert (snd r) (get_set src_map k)))"
proof (cases "parts_of (fst r)")
  case None
  then have "parse_object_number (fst r) = None" by (simp add: parts_of_None)
  with None show ?thesis
    unfolding source_step_def isinstance_guard by (simp add: falsy_def key_of_def)
next
  case (Some a)
  obtain y bp where a: "a = (y, bp)" by (cases a)
  with Some have p: "parse_object_number (fst r) = Some [(''year'', y), (''base_prefix'', bp)]"
    by (simp add: parts_of_Some)
  show ?thesis
    unfolding source_step_def isinstance_guard
    using p Some a
    by (simp add: falsy_def getitem_def get_set_def key_of_def Let_def)
qed

subsection \<open>The loops\<close>

lemma source_loop_eq:
  "\<exists>src_map'. source_loop rs src_map = Inr src_map' \<and>
     (\<forall>k. get_set src_map' k = get_set src_map k \<union> sources_of rs k)"
proof (induction rs arbitrary: src_map)
  case Nil
  then show ?case by (simp add: sources_of_def)
next
  case (Cons r rs)
  let ?m = "case key_of (fst r) of None \<Rightarrow> src_map
            | Some k \<Rightarrow> src_map(k \<mapsto> insert (snd r) (get_set src_map k))"
  from Cons.IH [of ?m] obtain m' where m': "source_loop rs ?m = Inr m'"
    "\<forall>k. get_set m' k = get_set ?m k \<union> sources_of rs k" by blast
  have step: "get_set ?m k = get_set src_map k \<union> sources_of [r] k" for k
    by (cases r) (auto simp: get_set_def sources_of_def split: option.splits)
  have app: "sources_of (r # rs) k = sources_of [r] k \<union> sources_of rs k" for k
    by (auto simp: sources_of_def)
  have "source_loop (r # rs) src_map = Inr m'"
    using m'(1) by (simp add: source_step_eq)
  moreover have "\<forall>k. get_set m' k = get_set src_map k \<union> sources_of (r # rs) k"
    using m'(2) step app by auto
  ultimately show ?case by blast
qed

lemma link_loop_char:
  assumes "link_loop fs images_root src_map xs st = Inr st'"
  shows "st_rows st' = st_rows st @
           List.map_filter (mk_row fs images_root (get_set src_map)) (emit (st_seen st) xs) \<and>
         st_misses st' = st_misses st @
           List.map_filter (mk_miss fs images_root) (emit (st_seen st) xs) \<and>
         (\<forall>raw\<in>set (emit (st_seen st) xs). \<forall>y bp. parts_of raw = Some (y, bp) \<longrightarrow>
            (\<exists>ms. find_matching_files_in_year fs images_root y bp = Inr ms))"
  using assms
proof (induction xs arbitrary: st)
  case Nil
  then show ?case by (simp add: List.map_filter_simps)
next
  case (Cons x xs)
  from Cons.prems obtain st1 where
    s1: "link_step fs images_root src_map x st = Inr st1"
    and l1: "link_loop fs images_root src_map xs st1 = Inr st'"
    by (auto split: sum.splits)
  note ih = Cons.IH [OF l1]
  show ?case
  proof (cases "parts_of x")
    case None
    with s1 have st1: "st1 = st\<lparr>st_misses := st_misses st @
                  [\<lparr>m_obj_id_raw = x, m_year = None, m_base_prefix = None,
                    m_reason = reason_no_number\<rparr>]\<rparr>"
      by (simp add: link_step_eq)
    have k: "key_of x = None" using None by (simp add: key_of_def)
    show ?thesis using ih None
      unfolding st1 by (simp add: k List.map_filter_simps mk_row_def mk_miss_def)
  next
    case (Some a)
    obtain y bp where a: "a = (y, bp)" by (cases a)
    have k: "key_of x = Some (y, lower bp)" using Some a by (simp add: key_of_def)
    show ?thesis
    proof (cases "(y, lower bp) \<in> st_seen st")
      case True
      with s1 Some a have "st1 = st" by (simp add: link_step_eq)
      with ih True show ?thesis by (simp add: k)
    next
      case False
      from s1 Some a False obtain ms where
        ms: "find_matching_files_in_year fs images_root y bp = Inr ms"
        by (auto simp: link_step_eq split: sum.splits)
      show ?thesis
      proof (cases "ms = []")
        case True
        with s1 Some a False ms have st1: "st1 = st\<lparr>st_seen := insert (y, lower bp) (st_seen st),
                        st_misses := st_misses st @
                          [\<lparr>m_obj_id_raw = x, m_year = Some y, m_base_prefix = Some bp,
                            m_reason = reason_no_files y bp\<rparr>]\<rparr>"
          by (simp add: link_step_eq)
        show ?thesis using ih Some a False ms True
          unfolding st1 by (simp add: k List.map_filter_simps mk_row_def mk_miss_def)
      next
        case nonempty: False
        with s1 Some a False ms have st1: "st1 = st\<lparr>st_seen := insert (y, lower bp) (st_seen st),
                        st_rows := st_rows st @
                          [\<lparr>r_obj_id_raw = x, r_year = y, r_base_prefix = bp,
                            r_images = map basename ms, r_image_count = length ms,
                            r_source_files = join_str '', ''
                              (sorted_list_of_set (get_set src_map (y, lower bp)))\<rparr>]\<rparr>"
          by (simp add: link_step_eq)
        show ?thesis using ih Some a False ms nonempty
          unfolding st1 by (simp add: k List.map_filter_simps mk_row_def mk_miss_def)
      qed
    qed
  qed
qed

lemma link_loop_total:
  assumes "\<forall>raw\<in>set xs. \<forall>y bp. parts_of raw = Some (y, bp) \<longrightarrow>
            (\<exists>ms. find_matching_files_in_year fs images_root y bp = Inr ms)"
  shows "\<exists>st'. link_loop fs images_root src_map xs st = Inr st'"
  using assms
proof (induction xs arbitrary: st)
  case Nil
  then show ?case by simp
next
  case (Cons x xs)
  have "\<exists>st1. link_step fs images_root src_map x st = Inr st1"
  proof (cases "parts_of x")
    case None
    then show ?thesis by (simp add: link_step_eq)
  next
    case (Some a)
    obtain y bp where a: "a = (y, bp)" by (cases a)
    with Some Cons.prems obtain ms where
      "find_matching_files_in_year fs images_root y bp = Inr ms" by auto
    with Some a show ?thesis by (simp add: link_step_eq)
  qed
  then obtain st1 where s1: "link_step fs images_root src_map x st = Inr st1" by blast
  from Cons.IH [of st1] Cons.prems obtain st' where
    "link_loop fs images_root src_map xs st1 = Inr st'" by auto
  with s1 show ?case by simp
qed

lemma build_char:
  assumes "build_links_like_group fs meta images_root = Inr (rows, misses)"
  shows "rows = List.map_filter (mk_row fs images_root (sources_of meta)) (emit {} (series_of meta))"
    and "misses = List.map_filter (mk_miss fs images_root) (emit {} (series_of meta))"
    and "\<forall>raw\<in>set (emit {} (series_of meta)). \<forall>y bp. parts_of raw = Some (y, bp) \<longrightarrow>
            (\<exists>ms. find_matching_files_in_year fs images_root y bp = Inr ms)"
proof -
  have "rows = List.map_filter (mk_row fs images_root (sources_of meta)) (emit {} (series_of meta)) \<and>
    misses = List.map_filter (mk_miss fs images_root) (emit {} (series_of meta)) \<and>
    (\<forall>raw\<in>set (emit {} (series_of meta)). \<forall>y bp. parts_of raw = Some (y, bp) \<longrightarrow>
            (\<exists>ms. find_matching_files_in_year fs images_root y bp = Inr ms))"
  proof (cases "meta = []")
    case True
    with assms show ?thesis
      by (simp add: build_links_like_group_def series_of_def dropna_def List.map_filter_simps)
  next
    case False
    from source_loop_eq [of meta Map.empty] obtain sm where
      sm: "source_loop meta Map.empty = Inr sm"
      "\<forall>k. get_set sm k = get_set Map.empty k \<union> sources_of meta k" by blast
    then have gs: "get_set sm = sources_of meta" by (auto simp: get_set_def fun_eq_iff)
    from assms False sm(1) obtain st where
      l: "link_loop fs images_root sm (series_of meta)
            \<lparr>st_rows = [], st_misses = [], st_seen = {}\<rparr> = Inr st"
      and r: "rows = st_rows st" "misses = st_misses st"
      by (auto simp: build_links_like_group_def split: sum.splits)
    from link_loop_char [OF l] r show ?thesis by (simp add: gs)
  qed
  then show "rows = List.map_filter (mk_row fs images_root (sources_of meta)) (emit {} (series_of meta))"
    and "misses = List.map_filter (mk_miss fs images_root) (emit {} (series_of meta))"
    and "\<forall>raw\<in>set (emit {} (series_of meta)). \<forall>y bp. parts_of raw = Some (y, bp) \<longrightarrow>
            (\<exists>ms. find_matching_files_in_year fs images_root y bp = Inr ms)"
    by blast+
qed

lemma build_total:
  assumes "\<forall>raw\<in>set (series_of meta). \<forall>y bp. parts_of raw = Some (y, bp) \<longrightarrow>
            (\<exists>ms. find_matching_files_in_year fs images_root y bp = Inr ms)"
  shows "\<exists>rows misses. build_links_like_group fs meta images_root = Inr (rows, misses)"
proof -
  from source_loop_eq [of meta Map.empty] obtain sm where
    sm: "source_loop meta Map.empty = Inr sm" by blast
  from link_loop_total [OF assms, of sm "\<lparr>st_rows = [], st_misses = [], st_seen = {}\<rparr>"]
  obtain st where "link_loop fs images_root sm (series_of meta)
            \<lparr>st_rows = [], st_misses = [], st_seen = {}\<rparr> = Inr st" by blast
  with sm show ?thesis by (simp add: build_links_like_group_def)
qed

subsection \<open>The identifiers that lead to an entry\<close>

lemma set_map_filter: "set (List.map_filter f xs) = {y. \<exists>x\<in>set xs. f x = Some y}"
  by (induction xs) (auto split: option.splits)

lemma subseq_map_filter: "subseq xs ys \<Longrightarrow> subseq (List.map_filter f xs) (List.map_filter f ys)"
  by (induction rule: list_emb.induct) (auto split: option.splits)

lemma emit_subseq: "subseq (emit seen xs) xs"
  by (induction xs arbitrary: seen) (auto split: option.splits)

lemma emit_subset: "set (emit seen xs) \<subseteq> set xs"
  by (induction xs arbitrary: seen) (auto split: option.splits)

lemma emit_distinct: "distinct xs \<Longrightarrow> distinct (emit seen xs)"
proof (induction xs arbitrary: seen)
  case Nil
  then show ?case by simp
next
  case (Cons x xs)
  then have "x \<notin> set (emit s xs)" for s using emit_subset [of s xs] by auto
  with Cons show ?case by (auto split: option.splits)
qed

lemma emit_key_fresh:
  "x \<in> set (emit seen xs) \<Longrightarrow> key_of x = Some k \<Longrightarrow> k \<notin> seen"
proof (induction xs arbitrary: seen)
  case Nil
  then show ?case by simp
next
  case (Cons a xs)
  show ?case
  proof (cases "key_of a")
    case None
    with Cons show ?thesis by auto
  next
    case (Some ka)
    show ?thesis
    proof (cases "ka \<in> seen")
      case True
      with Some Cons show ?thesis by auto
    next
      case False
      with Some Cons.prems have "x = a \<or> x \<in> set (emit (insert ka seen) xs)" by simp
      then show ?thesis
      proof
        assume "x = a"
        with Some Cons.prems(2) False show ?thesis by simp
      next
        assume "x \<in> set (emit (insert ka seen) xs)"
        from Cons.IH [OF this Cons.prems(2)] show ?thesis by simp
      qed
    qed
  qed
qed

lemma emit_keys_distinct: "distinct (List.map_filter key_of (emit seen xs))"
proof (induction xs arbitrary: seen)
  case Nil
  then show ?case by (simp add: List.map_filter_simps)
next
  case (Cons a xs)
  show ?case
  proof (cases "key_of a")
    case None
    with Cons show ?thesis by (simp add: List.map_filter_simps)
  next
    case (Some ka)
    have "ka \<notin> set (List.map_filter key_of (emit (insert ka seen) xs))"
    proof
      assume "ka \<in> set (List.map_filter key_of (emit (insert ka seen) xs))"
      then obtain x where "x \<in> set (emit (insert ka seen) xs)" "key_of x = Some ka"
        by (auto simp: set_map_filter)
      from emit_key_fresh [OF this] show False by simp
    qed
    with Some Cons show ?thesis by (simp add: List.map_filter_simps)
  qed
qed

lemma emit_keeps_unkeyed:
  "x \<in> set xs \<Longrightarrow> key_of x = None \<Longrightarrow> x \<in> set (emit seen xs)"
  by (induction xs arbitrary: seen) (auto split: option.splits)

lemma emit_covers_keys:
  "x \<in> set xs \<Longrightarrow> key_of x = Some k \<Longrightarrow> k \<notin> seen \<Longrightarrow>
     \<exists>x'\<in>set (emit seen xs). key_of x' = Some k"
proof (induction xs arbitrary: seen)
  case Nil
  then show ?case by simp
next
  case (Cons a xs)
  show ?case
  proof (cases "key_of a")
    case None
    with Cons.prems have "x \<in> set xs" by auto
    from Cons.IH [OF this Cons.prems(2,3)] None show ?thesis by auto
  next
    case (Some ka)
    show ?thesis
    proof (cases "ka = k")
      case True
      with Some Cons.prems(3) show ?thesis by auto
    next
      case False
      with Some Cons.prems have x: "x \<in> set xs" by auto
      show ?thesis
      proof (cases "ka \<in> seen")
        case True
        with Cons.IH [OF x Cons.prems(2,3)] Some show ?thesis by auto
      next
        case notseen: False
        from False Cons.prems(3) have "k \<notin> insert ka seen" by simp
        from Cons.IH [OF x Cons.prems(2) this] Some notseen show ?thesis by auto
      qed
    qed
  qed
qed

lemma emit_first_with_key:
  "x \<in> set (emit seen xs) \<Longrightarrow> key_of x = Some k \<Longrightarrow>
     List.find (\<lambda>v. key_of v = Some k) xs = Some x"
proof (induction xs arbitrary: seen)
  case Nil
  then show ?case by simp
next
  case (Cons a xs)
  show ?case
  proof (cases "key_of a")
    case None
    with Cons.prems have "x \<in> set (emit seen xs)" by auto
    from Cons.IH [OF this Cons.prems(2)] None show ?thesis by simp
  next
    case (Some ka)
    show ?thesis
    proof (cases "ka \<in> seen")
      case True
      with Some Cons.prems have x: "x \<in> set (emit seen xs)" by simp
      from emit_key_fresh [OF x Cons.prems(2)] True have "ka \<noteq> k" by auto
      with Cons.IH [OF x Cons.prems(2)] Some show ?thesis by simp
    next
      case False
      with Some Cons.prems have "x = a \<or> x \<in> set (emit (insert ka seen) xs)" by simp
      then show ?thesis
      proof
        assume "x = a"
        with Cons.prems(2) show ?thesis by simp
      next
        assume x: "x \<in> set (emit (insert ka seen) xs)"
        from emit_key_fresh [OF x Cons.prems(2)] have "ka \<noteq> k" by auto
        with Cons.IH [OF x Cons.prems(2)] Some show ?thesis by simp
      qed
    qed
  qed
qed

subsection \<open>The column of identifiers\<close>

lemma set_drop_duplicates: "set (drop_duplicates xs) = set xs"
  by (induction xs rule: drop_duplicates.induct) auto

lemma distinct_drop_duplicates: "distinct (drop_duplicates xs)"
  by (induction xs rule: drop_duplicates.induct) (auto simp: set_drop_duplicates)

lemma subseq_drop_duplicates: "subseq (drop_duplicates xs) xs"
proof (induction xs rule: drop_duplicates.induct)
  case 1
  then show ?case by simp
next
  case (2 x xs)
  have "subseq (filter (\<lambda>y. y \<noteq> x) xs) xs" by simp
  with 2 have "subseq (drop_duplicates (filter (\<lambda>y. y \<noteq> x) xs)) xs"
    using subseq_order.order_trans by blast
  then show ?case by simp
qed

lemma find_drop_duplicates: "List.find P (drop_duplicates xs) = List.find P xs"
proof (induction xs rule: drop_duplicates.induct)
  case 1
  then show ?case by simp
next
  case (2 x xs)
  have "List.find P (filter (\<lambda>y. y \<noteq> x) xs) = List.find P xs" if "\<not> P x"
    using that by (induction xs) auto
  with 2 show ?case by simp
qed

lemma distinct_series: "distinct (series_of meta)"
  by (simp add: series_of_def distinct_drop_duplicates)

lemma set_series: "set (series_of meta) = strip_val ` {v \<in> fst ` set meta. v \<noteq> NaN}"
  by (auto simp: series_of_def set_drop_duplicates dropna_def)

lemma NaN_not_in_series: "NaN \<notin> set (series_of meta)"
  by (auto simp: set_series strip_val_def split: pyval.splits)

lemma key_of_strip: "key_of (strip_val v) = key_of v"
  by (simp add: key_of_def parts_of_def parse_strip)

lemma find_series:
  "List.find (\<lambda>v. key_of v = Some k) (series_of meta) =
     map_option strip_val (List.find (\<lambda>v. v \<noteq> NaN \<and> key_of v = Some k) (map fst meta))"
proof -
  have "List.find (\<lambda>v. key_of v = Some k) (map strip_val (dropna vs)) =
     map_option strip_val (List.find (\<lambda>v. v \<noteq> NaN \<and> key_of v = Some k) vs)" for vs
    by (induction vs) (auto simp: dropna_def key_of_strip)
  then show ?thesis by (simp add: series_of_def find_drop_duplicates)
qed

subsection \<open>Names of files\<close>

lemma rfind_snoc: "rfind (s @ [x]) c = (if x = c then int (length s) else rfind s c)"
proof -
  have "filter (\<lambda>i. (s @ [x]) ! i = c) (rev [0..<length s]) =
        filter (\<lambda>i. s ! i = c) (rev [0..<length s])"
    by (rule filter_cong) (auto simp: nth_append)
  then show ?thesis by (simp add: rfind_def)
qed

lemma rfind_append_plain: "c \<notin> set n \<Longrightarrow> rfind (p @ n) c = rfind p c"
proof (induction n rule: rev_induct)
  case Nil
  then show ?case by simp
next
  case (snoc x xs)
  then have "x \<noteq> c" and ih: "rfind (p @ xs) c = rfind p c" by auto
  then have "rfind ((p @ xs) @ [x]) c = rfind p c" by (simp only: rfind_snoc if_False)
  then show ?case by simp
qed

lemma rfind_Nil: "rfind [] c = - 1"
  by (simp add: rfind_def)

lemma basename_dir_plain:
  assumes "CHR ''/'' \<notin> set n" and "d = [] \<or> last d = CHR ''/''"
  shows "basename (d @ n) = n"
proof (cases "d = []")
  case True
  have "rfind ([] @ n) (CHR ''/'') = - 1"
    using rfind_append_plain [OF assms(1), of "[]"] by (simp add: rfind_Nil)
  with True show ?thesis by (simp add: basename_def)
next
  case False
  with assms(2) obtain a where d: "d = a @ ''/''"
    by (metis append_butlast_last_id)
  have "rfind (d @ n) (CHR ''/'') = int (length a)"
    using rfind_append_plain [OF assms(1), of d] by (simp add: d rfind_snoc)
  moreover have "nat (int (length a) + 1) = Suc (length a)" by simp
  ultimately have "basename (d @ n) = drop (Suc (length a)) (d @ n)"
    by (simp only: basename_def)
  then show ?thesis by (simp add: d)
qed

lemma path_join_Nil_ends: "path_join yd [] = [] \<or> last (path_join yd []) = CHR ''/''"
proof (cases "yd = [] \<or> endswith yd ''/''")
  case True
  then show ?thesis
  proof
    assume "yd = []"
    then show ?thesis by (simp add: path_join_def startswith_def)
  next
    assume e: "endswith yd ''/''"
    then have "yd \<noteq> []" "drop (length yd - 1) yd = ''/''" by (auto simp: endswith_def)
    then have "last yd = CHR ''/''"
      by (metis last_drop last_snoc append_Nil diff_less length_greater_0_conv zero_less_one)
    with e show ?thesis by (simp add: path_join_def startswith_def)
  qed
next
  case False
  then show ?thesis by (simp add: path_join_def startswith_def)
qed

subsection \<open>The example\<close>

lemma example_run:
  "build_links_like_group example_fs example_meta ''root'' = Inr (example_rows, example_misses)"
  by code_simp

subsection \<open>Sorting paths and names\<close>

lemma append_le_append: "(p @ x \<le> p @ y) \<longleftrightarrow> (x \<le> (y :: string))"
  by (induction p) simp_all

lemma insort_append: "insort (p @ x) (map ((@) p) ys) = map ((@) p) (insort x (ys :: string list))"
  by (induction ys) (simp_all add: append_le_append)

lemma sort_append: "sort (map ((@) p) xs) = map ((@) p) (sort (xs :: string list))"
  by (induction xs) (simp_all add: insort_append)

lemma basenames_of_matches:
  assumes "plain_names names"
  shows "map basename (sort (map (path_join yd) (filter P names))) = sort (filter P names)"
proof -
  let ?ns = "filter P names"
  have plain: "CHR ''/'' \<notin> set n" if "n \<in> set ?ns" for n
    using that assms by (auto simp: plain_names_def list_all_iff)
  have mp: "map (path_join yd) ?ns = map ((@) (path_join yd [])) ?ns"
    by (rule map_cong [OF refl]) (use plain path_join_plain in blast)
  have "sort (map (path_join yd) ?ns) = map ((@) (path_join yd [])) (sort ?ns)"
    unfolding mp by (rule sort_append)
  moreover have "map basename (map ((@) (path_join yd [])) (sort ?ns)) = sort ?ns"
  proof -
    have "basename (path_join yd [] @ n) = n" if "n \<in> set (sort ?ns)" for n
      using that plain [of n] path_join_Nil_ends [of yd] by (intro basename_dir_plain) auto
    then have "map (\<lambda>n. basename (path_join yd [] @ n)) (sort ?ns) = map (\<lambda>n. n) (sort ?ns)"
      by (intro map_cong [OF refl]) simp
    then show ?thesis by (simp add: comp_def)
  qed
  ultimately show ?thesis by simp
qed

lemma find_matching_Inr_nonemptyD:
  assumes "find_matching_files_in_year fs images_root y bp = Inr ms" and "ms \<noteq> []"
  shows "isdir fs (path_join images_root y) \<and>
         (\<exists>names. listdir fs (path_join images_root y) = Inr names)"
  using assms
  by (auto simp: find_matching_files_in_year_def Let_def split: if_splits sum.splits)

lemma mk_row_SomeD:
  assumes "mk_row fs images_root srcs raw = Some r"
  shows "\<exists>y bp ms. parts_of raw = Some (y, bp) \<and>
           find_matching_files_in_year fs images_root y bp = Inr ms \<and> ms \<noteq> [] \<and>
           r = \<lparr>r_obj_id_raw = raw, r_year = y, r_base_prefix = bp,
                 r_images = map basename ms, r_image_count = length ms,
                 r_source_files = join_str '', '' (sorted_list_of_set (srcs (y, lower bp)))\<rparr>"
  using assms by (auto simp: mk_row_def split: option.splits sum.splits if_splits)

lemma mk_miss_SomeD:
  assumes "mk_miss fs images_root raw = Some m"
  shows "(parts_of raw = None \<and>
           m = \<lparr>m_obj_id_raw = raw, m_year = None, m_base_prefix = None,
                 m_reason = reason_no_number\<rparr>) \<or>
         (\<exists>y bp. parts_of raw = Some (y, bp) \<and>
            find_matching_files_in_year fs images_root y bp = Inr [] \<and>
            m = \<lparr>m_obj_id_raw = raw, m_year = Some y, m_base_prefix = Some bp,
                  m_reason = reason_no_files y bp\<rparr>)"
  using assms by (auto simp: mk_miss_def split: option.splits sum.splits if_splits)

lemma build_rowD:
  assumes "build_links_like_group fs meta images_root = Inr (rows, misses)" and "r \<in> set rows"
  shows "\<exists>raw y bp ms. raw \<in> set (emit {} (series_of meta)) \<and> parts_of raw = Some (y, bp) \<and>
           find_matching_files_in_year fs images_root y bp = Inr ms \<and> ms \<noteq> [] \<and>
           r = \<lparr>r_obj_id_raw = raw, r_year = y, r_base_prefix = bp,
                 r_images = map basename ms, r_image_count = length ms,
                 r_source_files =
                   join_str '', '' (sorted_list_of_set (sources_of meta (y, lower bp)))\<rparr>"
proof -
  from build_char(1) [OF assms(1)] assms(2) obtain raw where
    "raw \<in> set (emit {} (series_of meta))"
    "mk_row fs images_root (sources_of meta) raw = Some r"
    by (auto simp: set_map_filter)
  with mk_row_SomeD [OF this(2)] show ?thesis by blast
qed

lemma build_missD:
  assumes "build_links_like_group fs meta images_root = Inr (rows, misses)" and "m \<in> set misses"
  shows "\<exists>raw. raw \<in> set (emit {} (series_of meta)) \<and>
          ((parts_of raw = None \<and>
             m = \<lparr>m_obj_id_raw = raw, m_year = None, m_base_prefix = None,
                   m_reason = reason_no_number\<rparr>) \<or>
           (\<exists>y bp. parts_of raw = Some (y, bp) \<and>
              find_matching_files_in_year fs images_root y bp = Inr [] \<and>
              m = \<lparr>m_obj_id_raw = raw, m_year = Some y, m_base_prefix = Some bp,
                    m_reason = reason_no_files y bp\<rparr>))"
proof -
  from build_char(2) [OF assms(1)] assms(2) obtain raw where
    "raw \<in> set (emit {} (series_of meta))" "mk_miss fs images_root raw = Some m"
    by (auto simp: set_map_filter)
  with mk_miss_SomeD [OF this(2)] show ?thesis by blast
qed

section \<open>Properties of the aggregation\<close>

text \<open>
  C9. Every linked group has a non-empty list of images, the base names of the files
  that the resolver returns for its year and prefix, and its image count is the length
  of that list; so a key that resolves to no file is never a linked group. When the
  directory listing consists of entry names, the images are the sorted list of the
  qualifying names.
\<close>

theorem linked_group_files:
  assumes "build_links_like_group fs meta images_root = Inr (rows, misses)"
    and "r \<in> set rows"
  shows "r_images r \<noteq> [] \<and> r_image_count r = length (r_images r) \<and>
         (\<exists>ms. find_matching_files_in_year fs images_root (r_year r) (r_base_prefix r) = Inr ms \<and>
            ms \<noteq> [] \<and> r_images r = map basename ms) \<and>
         (\<forall>names. listdir fs (path_join images_root (r_year r)) = Inr names \<longrightarrow>
            plain_names names \<longrightarrow>
              r_images r = sort (filter (qualifies fs (path_join images_root (r_year r))
                             (r_base_prefix r)) names) \<and>
              sorted (r_images r))"
proof -
  from build_rowD [OF assms] obtain raw y bp ms where
    ms: "find_matching_files_in_year fs images_root y bp = Inr ms" "ms \<noteq> []"
    and r: "r = \<lparr>r_obj_id_raw = raw, r_year = y, r_base_prefix = bp,
                 r_images = map basename ms, r_image_count = length ms,
                 r_source_files =
                   join_str '', '' (sorted_list_of_set (sources_of meta (y, lower bp)))\<rparr>"
    by blast
  have a: "r_images r \<noteq> []" "r_image_count r = length (r_images r)"
    "r_year r = y" "r_base_prefix r = bp" "r_images r = map basename ms"
    using ms(2) by (simp_all add: r)
  have b: "r_images r = sort (filter (qualifies fs (path_join images_root y) bp) names) \<and>
           sorted (r_images r)"
    if l: "listdir fs (path_join images_root y) = Inr names" and p: "plain_names names"
    for names
  proof -
    from find_matching_Inr_nonemptyD [OF ms] have d: "isdir fs (path_join images_root y)"
      by blast
    from find_matching_eq [OF d l, of bp] ms(1)
    have "ms = sort (map (path_join (path_join images_root y))
                  (filter (qualifies fs (path_join images_root y) bp) names))" by simp
    then have "r_images r = sort (filter (qualifies fs (path_join images_root y) bp) names)"
      using basenames_of_matches [OF p] a(5) by simp
    then show ?thesis by simp
  qed
  from a b ms show ?thesis by auto
qed

theorem linked_group_files_witness:
  "build_links_like_group example_fs example_meta ''root'' = Inr (example_rows, example_misses) \<and>
   (\<exists>r. r \<in> set example_rows \<and>
      r_images r = [''1-1997-1063-000.jpg'', ''1-1997-1063-001.JPG''] \<and>
      r_images r \<noteq> [] \<and> r_image_count r = length (r_images r) \<and> sorted (r_images r))"
proof -
  let ?r = "\<lparr>r_obj_id_raw = Str ''1 / 1997 / 1063 0'', r_year = ''1997'',
       r_base_prefix = ''1-1997-1063-'',
       r_images = [''1-1997-1063-000.jpg'', ''1-1997-1063-001.JPG''],
       r_image_count = 2, r_source_files = ''a.xls, b.xls''\<rparr>"
  let ?names = "[''1-1997-1063-001.JPG'', ''sub'', ''2-1997-9999-000.jpg'',
                 ''1-1997-1063-000.jpg'', ''1-1997-1063-notes.txt'']"
  have mem: "?r \<in> set example_rows" by (simp add: example_rows_def)
  have l: "listdir example_fs (path_join ''root'' (r_year ?r)) = Inr ?names"
    by (simp add: example_fs_def path_join_def startswith_def endswith_def)
  have p: "plain_names ?names" by (simp add: plain_names_def)
  from linked_group_files [OF example_run mem] l p
  have "r_images ?r \<noteq> []" "r_image_count ?r = length (r_images ?r)" "sorted (r_images ?r)"
    by blast+
  with mem example_run show ?thesis by (intro conjI exI [of _ ?r]) simp_all
qed

text \<open>
  C7 (as amended). Every entry of the list of misses is of one of two kinds. Either the
  parser found no number in its identifier: then it has no year and no prefix, and its
  reason is the text \<^verbatim>\<open>Keine Objektnummer im Format 'g1/yyyy/g3 g4' gefunden\<close>. Or the
  identifier was parsed and the resolver returned no file: then it carries the year
  and the prefix, and its reason is \<^verbatim>\<open>Keine Dateien in <year>/ mit Praefix '<prefix>'\<close>
  (with a-umlaut).
\<close>

theorem miss_reasons:
  assumes "build_links_like_group fs meta images_root = Inr (rows, misses)"
    and "m \<in> set misses"
  shows "(parse_object_number (m_obj_id_raw m) = None \<and> m_year m = None \<and>
          m_base_prefix m = None \<and> m_reason m = reason_no_number) \<or>
         (\<exists>y bp. parse_object_number (m_obj_id_raw m) =
                    Some [(''year'', y), (''base_prefix'', bp)] \<and>
            find_matching_files_in_year fs images_root y bp = Inr [] \<and>
            m_year m = Some y \<and> m_base_prefix m = Some bp \<and>
            m_reason m = reason_no_files y bp)"
proof -
  from build_missD [OF assms] obtain raw where
    "(parts_of raw = None \<and>
       m = \<lparr>m_obj_id_raw = raw, m_year = None, m_base_prefix = None,
             m_reason = reason_no_number\<rparr>) \<or>
     (\<exists>y bp. parts_of raw = Some (y, bp) \<and>
        find_matching_files_in_year fs images_root y bp = Inr [] \<and>
        m = \<lparr>m_obj_id_raw = raw, m_year = Some y, m_base_prefix = Some bp,
              m_reason = reason_no_files y bp\<rparr>)"
    by blast
  then show ?thesis
  proof
    assume "parts_of raw = None \<and>
       m = \<lparr>m_obj_id_raw = raw, m_year = None, m_base_prefix = None,
             m_reason = reason_no_number\<rparr>"
    then show ?thesis by (simp add: parts_of_None)
  next
    assume "\<exists>y bp. parts_of raw = Some (y, bp) \<and>
        find_matching_files_in_year fs images_root y bp = Inr [] \<and>
        m = \<lparr>m_obj_id_raw = raw, m_year = Some y, m_base_prefix = Some bp,
              m_reason = reason_no_files y bp\<rparr>"
    then obtain y bp where "parts_of raw = Some (y, bp)"
      "find_matching_files_in_year fs images_root y bp = Inr []"
      "m = \<lparr>m_obj_id_raw = raw, m_year = Some y, m_base_prefix = Some bp,
              m_reason = reason_no_files y bp\<rparr>" by blast
    then show ?thesis by (intro disjI2 exI [of _ y] exI [of _ bp]) (simp add: parts_of_Some)
  qed
qed

theorem miss_reasons_witness:
  "build_links_like_group example_fs example_meta ''root'' = Inr (example_rows, example_misses) \<and>
   (\<exists>m. m \<in> set example_misses \<and> m_obj_id_raw m = Str ''no number here'' \<and>
      parse_object_number (m_obj_id_raw m) = None \<and> m_reason m = reason_no_number) \<and>
   (\<exists>m. m \<in> set example_misses \<and> m_obj_id_raw m = Str ''3/2001/050 0'' \<and>
      m_year m = Some ''2001'' \<and> m_base_prefix m = Some ''3-2001-050-'' \<and>
      find_matching_files_in_year example_fs ''root'' ''2001'' ''3-2001-050-'' = Inr [] \<and>
      m_reason m = reason_no_files ''2001'' ''3-2001-050-'')"
proof -
  let ?m1 = "\<lparr>m_obj_id_raw = Str ''no number here'', m_year = None, m_base_prefix = None,
       m_reason = reason_no_number\<rparr>"
  let ?m2 = "\<lparr>m_obj_id_raw = Str ''3/2001/050 0'', m_year = Some ''2001'',
       m_base_prefix = Some ''3-2001-050-'',
       m_reason = reason_no_files ''2001'' ''3-2001-050-''\<rparr>"
  have mem1: "?m1 \<in> set example_misses" and mem2: "?m2 \<in> set example_misses"
    by (simp_all add: example_misses_def)
  from miss_reasons [OF example_run mem1]
  have a: "parse_object_number (m_obj_id_raw ?m1) = None" by auto
  from miss_reasons [OF example_run mem2]
  have b: "find_matching_files_in_year example_fs ''root'' ''2001'' ''3-2001-050-'' = Inr []"
    by auto
  have "\<exists>m. m \<in> set example_misses \<and> m_obj_id_raw m = Str ''no number here'' \<and>
      parse_object_number (m_obj_id_raw m) = None \<and> m_reason m = reason_no_number"
    using mem1 a by (intro exI [of _ ?m1]) simp
  moreover have "\<exists>m. m \<in> set example_misses \<and> m_obj_id_raw m = Str ''3/2001/050 0'' \<and>
      m_year m = Some ''2001'' \<and> m_base_prefix m = Some ''3-2001-050-'' \<and>
      find_matching_files_in_year example_fs ''root'' ''2001'' ''3-2001-050-'' = Inr [] \<and>
      m_reason m = reason_no_files ''2001'' ''3-2001-050-''"
    using mem2 b by (intro exI [of _ ?m2]) simp
  ultimately show ?thesis using example_run by blast
qed

text \<open>
  The claim as written fails: the two reasons are not the texts
  \<^verbatim>\<open>no identifier pattern found\<close> and \<^verbatim>\<open>no files in <year>/ with prefix '<prefix>'\<close>.
\<close>

theorem miss_reason_texts_counterexample:
  "build_links_like_group example_fs
     [(Str ''no number here'', ''a.xls''), (Str ''3/2001/050 0'', ''a.xls'')] ''root'' =
     Inr ([], [\<lparr>m_obj_id_raw = Str ''no number here'', m_year = None, m_base_prefix = None,
                m_reason = ''Keine Objektnummer im Format '' @ [CHR 0x27] @ ''g1/yyyy/g3 g4'' @
                           [CHR 0x27] @ '' gefunden''\<rparr>,
               \<lparr>m_obj_id_raw = Str ''3/2001/050 0'', m_year = Some ''2001'',
                m_base_prefix = Some ''3-2001-050-'',
                m_reason = ''Keine Dateien in 2001/ mit Pr'' @ [CHR 0xE4] @ ''fix '' @
                           [CHR 0x27] @ ''3-2001-050-'' @ [CHR 0x27]\<rparr>]) \<and>
   ''Keine Objektnummer im Format '' @ [CHR 0x27] @ ''g1/yyyy/g3 g4'' @ [CHR 0x27] @ '' gefunden''
     \<noteq> ''no identifier pattern found'' \<and>
   ''Keine Dateien in 2001/ mit Pr'' @ [CHR 0xE4] @ ''fix '' @ [CHR 0x27] @ ''3-2001-050-'' @ [CHR 0x27]
     \<noteq> ''no files in 2001/ with prefix '' @ [CHR 0x27] @ ''3-2001-050-'' @ [CHR 0x27]"
  by code_simp

subsection \<open>One entry for each key\<close>

lemma map_map_filter: "map h (List.map_filter f xs) = List.map_filter (\<lambda>x. map_option h (f x)) xs"
  by (induction xs) (auto split: option.splits)

lemma map_filter_map_filter:
  "List.map_filter g (List.map_filter f xs) = List.map_filter (\<lambda>x. Option.bind (f x) g) xs"
  by (induction xs) (auto split: option.splits)

lemma map_filter_Some: "List.map_filter Some xs = xs"
  by (induction xs) simp_all

lemma distinct_two_selections:
  assumes "distinct (List.map_filter kf xs)"
    and "\<And>x. x \<in> set xs \<Longrightarrow> fr x = None \<or> fr x = kf x"
    and "\<And>x. x \<in> set xs \<Longrightarrow> fm x = None \<or> fm x = kf x"
    and "\<And>x. x \<in> set xs \<Longrightarrow> fr x = None \<or> fm x = None"
  shows "distinct (List.map_filter fr xs @ List.map_filter fm xs)"
  using assms
proof (induction xs)
  case Nil
  then show ?case by simp
next
  case (Cons a xs)
  have sub: "set (List.map_filter f xs) \<subseteq> set (List.map_filter kf xs)"
    if "\<And>x. x \<in> set xs \<Longrightarrow> f x = None \<or> f x = kf x" for f
    using that by (fastforce simp: set_map_filter)
  have sr: "set (List.map_filter fr xs) \<subseteq> set (List.map_filter kf xs)"
    by (rule sub) (use Cons.prems(2) in auto)
  have sm: "set (List.map_filter fm xs) \<subseteq> set (List.map_filter kf xs)"
    by (rule sub) (use Cons.prems(3) in auto)
  have ih: "distinct (List.map_filter fr xs @ List.map_filter fm xs)"
    by (rule Cons.IH) (use Cons.prems in \<open>auto split: option.splits\<close>)
  have a: "fr a = None \<or> fr a = kf a" "fm a = None \<or> fm a = kf a" "fr a = None \<or> fm a = None"
    using Cons.prems(2,3,4) [of a] by simp_all
  show ?case
  proof (cases "kf a")
    case None
    with a ih show ?thesis by auto
  next
    case (Some k)
    with Cons.prems(1) have "k \<notin> set (List.map_filter kf xs)" by simp
    with sr sm have "k \<notin> set (List.map_filter fr xs)" "k \<notin> set (List.map_filter fm xs)" by auto
    with a ih Some show ?thesis by (auto split: option.splits)
  qed
qed

lemma row_key_mk_row:
  "mk_row fs images_root srcs x = Some r \<Longrightarrow> key_of x = Some (row_key r) \<and> r_obj_id_raw r = x"
  by (auto dest!: mk_row_SomeD simp: key_of_def row_key_def)

lemma miss_key_mk_miss:
  "mk_miss fs images_root x = Some m \<Longrightarrow> miss_key m = key_of x \<and> m_obj_id_raw m = x"
  by (auto dest!: mk_miss_SomeD simp: key_of_def miss_key_def)

lemma mk_row_mk_miss_exclusive:
  "mk_row fs images_root srcs x = None \<or> mk_miss fs images_root x = None"
  by (auto simp: mk_row_def mk_miss_def split: option.splits sum.splits)

lemma build_keys_distinct:
  assumes "build_links_like_group fs meta images_root = Inr (rows, misses)"
  shows "distinct (map row_key rows @ List.map_filter miss_key misses)"
proof -
  let ?E = "emit {} (series_of meta)"
  let ?fr = "\<lambda>x. map_option row_key (mk_row fs images_root (sources_of meta) x)"
  let ?fm = "\<lambda>x. Option.bind (mk_miss fs images_root x) miss_key"
  have "distinct (List.map_filter ?fr ?E @ List.map_filter ?fm ?E)"
  proof (rule distinct_two_selections [where kf = key_of])
    show "distinct (List.map_filter key_of ?E)" by (rule emit_keys_distinct)
  next
    fix x
    show "?fr x = None \<or> ?fr x = key_of x"
      by (cases "mk_row fs images_root (sources_of meta) x") (auto dest: row_key_mk_row)
    show "?fm x = None \<or> ?fm x = key_of x"
      by (cases "mk_miss fs images_root x") (auto dest: miss_key_mk_miss)
    show "?fr x = None \<or> ?fm x = None"
      using mk_row_mk_miss_exclusive [of fs images_root "sources_of meta" x] by auto
  qed
  then show ?thesis
    unfolding build_char(1) [OF assms] build_char(2) [OF assms]
    by (simp add: map_map_filter map_filter_map_filter)
qed

lemma build_ids_distinct:
  assumes "build_links_like_group fs meta images_root = Inr (rows, misses)"
  shows "distinct (map r_obj_id_raw rows @ map m_obj_id_raw misses)"
proof -
  let ?E = "emit {} (series_of meta)"
  let ?fr = "\<lambda>x. map_option r_obj_id_raw (mk_row fs images_root (sources_of meta) x)"
  let ?fm = "\<lambda>x. map_option m_obj_id_raw (mk_miss fs images_root x)"
  have "distinct (List.map_filter ?fr ?E @ List.map_filter ?fm ?E)"
  proof (rule distinct_two_selections [where kf = Some])
    show "distinct (List.map_filter Some ?E)"
      using emit_distinct [OF distinct_series, of "{}" meta] by (simp add: map_filter_Some)
  next
    fix x
    show "?fr x = None \<or> ?fr x = Some x"
      by (cases "mk_row fs images_root (sources_of meta) x") (auto dest: row_key_mk_row)
    show "?fm x = None \<or> ?fm x = Some x"
      by (cases "mk_miss fs images_root x") (auto dest: miss_key_mk_miss)
    show "?fr x = None \<or> ?fm x = None"
      using mk_row_mk_miss_exclusive [of fs images_root "sources_of meta" x] by auto
  qed
  then show ?thesis
    unfolding build_char(1) [OF assms] build_char(2) [OF assms]
    by (simp add: map_map_filter)
qed

lemma build_covers_keys:
  assumes "build_links_like_group fs meta images_root = Inr (rows, misses)"
    and "(raw, src) \<in> set meta" and "key_of raw = Some k"
  shows "k \<in> set (map row_key rows @ List.map_filter miss_key misses)"
proof -
  let ?E = "emit {} (series_of meta)"
  from assms(3) have "raw \<noteq> NaN" by (auto simp: key_of_def parts_of_def parse_object_number_def)
  with assms(2) have "strip_val raw \<in> set (series_of meta)"
    by (force simp: set_series)
  moreover have "key_of (strip_val raw) = Some k" using assms(3) by (simp add: key_of_strip)
  ultimately obtain x where x: "x \<in> set ?E" "key_of x = Some k"
    using emit_covers_keys [of "strip_val raw" "series_of meta" k "{}"] by auto
  then obtain y bp where p: "parts_of x = Some (y, bp)" "k = (y, lower bp)"
    by (auto simp: key_of_def)
  from build_char(3) [OF assms(1)] x(1) p(1) obtain ms where
    ms: "find_matching_files_in_year fs images_root y bp = Inr ms" by blast
  show ?thesis
  proof (cases "ms = []")
    case True
    with p ms have "mk_miss fs images_root x =
        Some \<lparr>m_obj_id_raw = x, m_year = Some y, m_base_prefix = Some bp,
              m_reason = reason_no_files y bp\<rparr>"
      by (simp add: mk_miss_def)
    with x(1) have "\<lparr>m_obj_id_raw = x, m_year = Some y, m_base_prefix = Some bp,
              m_reason = reason_no_files y bp\<rparr> \<in> set misses"
      unfolding build_char(2) [OF assms(1)] by (auto simp: set_map_filter)
    moreover have "miss_key \<lparr>m_obj_id_raw = x, m_year = Some y, m_base_prefix = Some bp,
              m_reason = reason_no_files y bp\<rparr> = Some k"
      by (simp add: miss_key_def p(2))
    ultimately have "k \<in> set (List.map_filter miss_key misses)"
      unfolding set_map_filter by blast
    then show ?thesis by simp
  next
    case False
    with p ms obtain r where r: "mk_row fs images_root (sources_of meta) x = Some r"
      by (simp add: mk_row_def)
    with x(1) have "r \<in> set rows"
      unfolding build_char(1) [OF assms(1)] by (auto simp: set_map_filter)
    moreover from row_key_mk_row [OF r] x(2) have "row_key r = k" by simp
    ultimately show ?thesis by auto
  qed
qed

lemma lower_char_digit: "is_digit c \<Longrightarrow> lower_char c = c"
  by (auto simp: is_digit_def lower_char_def)

lemma lower_digits: "list_all is_digit s \<Longrightarrow> lower s = s"
  by (induction s) (simp_all add: lower_def lower_char_digit)

lemma lower_append: "lower (a @ b) = lower a @ lower b"
  by (simp add: lower_def)

lemma lower_dash: "lower ''-'' = ''-''"
  by (simp add: lower_def lower_char_def)

lemma key_of_pattern:
  assumes "obj_pattern g y q t"
  shows "key_of (Str t) = Some (y, g @ ''-'' @ y @ ''-'' @ q @ ''-'')"
proof -
  from assms have d: "list_all is_digit g" "list_all is_digit y" "list_all is_digit q"
    unfolding obj_pattern_def by blast+
  have "parse_object_number (Str ([] @ t @ [])) =
          Some [(''year'', y), (''base_prefix'', g @ ''-'' @ y @ ''-'' @ q @ ''-'')]"
    by (rule parse_leftmost [OF assms]) simp
  then have "parts_of (Str t) = Some (y, g @ ''-'' @ y @ ''-'' @ q @ ''-'')"
    by (simp add: parts_of_Some)
  moreover have "lower (g @ ''-'' @ y @ ''-'' @ q @ ''-'') = g @ ''-'' @ y @ ''-'' @ q @ ''-''"
    using d by (simp only: lower_append lower_digits lower_dash)
  ultimately show ?thesis by (simp add: key_of_def)
qed

lemma finite_sources: "finite (sources_of meta k)"
proof -
  have "sources_of meta k \<subseteq> snd ` set meta" by (force simp: sources_of_def)
  then show ?thesis by (rule finite_subset) simp
qed

lemma build_row_sources:
  assumes "build_links_like_group fs meta images_root = Inr (rows, misses)" and "r \<in> set rows"
  shows "r_source_files r = join_str '', '' (sorted_list_of_set (sources_of meta (row_key r)))"
proof -
  from build_rowD [OF assms] obtain raw y bp ms where
    "r = \<lparr>r_obj_id_raw = raw, r_year = y, r_base_prefix = bp,
          r_images = map basename ms, r_image_count = length ms,
          r_source_files =
            join_str '', '' (sorted_list_of_set (sources_of meta (y, lower bp)))\<rparr>"
    by blast
  then show ?thesis by (simp add: row_key_def)
qed

text \<open>
  C1. The keys of the linked groups and of the misses that have one are pairwise
  different, and so are the identifiers of all entries; every key that an identifier
  of the input has is the key of a linked group or of a miss, hence of exactly one
  entry. The source files of a linked group are the sorted source files of all rows of
  the input whose identifier has the key of the group. Trimming an identifier does not
  change its key, and the key of an identifier of the form \<open>g/yyyy/sss s\<close> does not
  depend on the series \<open>s\<close>. An entry of the list of misses has no field for source
  files.
\<close>

theorem one_entry_per_key:
  assumes "build_links_like_group fs meta images_root = Inr (rows, misses)"
  shows "distinct (map row_key rows @ List.map_filter miss_key misses) \<and>
         distinct (map r_obj_id_raw rows @ map m_obj_id_raw misses) \<and>
         (\<forall>raw src k. (raw, src) \<in> set meta \<longrightarrow> key_of raw = Some k \<longrightarrow>
            k \<in> set (map row_key rows @ List.map_filter miss_key misses)) \<and>
         (\<forall>r\<in>set rows. finite (sources_of meta (row_key r)) \<and>
            r_source_files r =
              join_str '', '' (sorted_list_of_set (sources_of meta (row_key r)))) \<and>
         (\<forall>v. key_of (strip_val v) = key_of v) \<and>
         (\<forall>g y q t. obj_pattern g y q t \<longrightarrow>
            key_of (Str t) = Some (y, g @ ''-'' @ y @ ''-'' @ q @ ''-''))"
  using build_keys_distinct [OF assms] build_ids_distinct [OF assms]
    build_covers_keys [OF assms] build_row_sources [OF assms]
    finite_sources key_of_strip key_of_pattern
  by blast

theorem one_entry_per_key_witness:
  "build_links_like_group example_fs example_meta ''root'' = Inr (example_rows, example_misses) \<and>
   distinct (map row_key example_rows @ List.map_filter miss_key example_misses) \<and>
   (Str '' 1 / 1997 / 1063 0'', ''a.xls'') \<in> set example_meta \<and>
   (Str ''1/1997/1063 2'', ''b.xls'') \<in> set example_meta \<and>
   key_of (Str '' 1 / 1997 / 1063 0'') = Some (''1997'', ''1-1997-1063-'') \<and>
   key_of (Str ''1/1997/1063 2'') = Some (''1997'', ''1-1997-1063-'') \<and>
   (''1997'', ''1-1997-1063-'') \<in> set (map row_key example_rows @ List.map_filter miss_key example_misses) \<and>
   (\<exists>r. r \<in> set example_rows \<and> row_key r = (''1997'', ''1-1997-1063-'') \<and>
      r_source_files r = ''a.xls, b.xls'' \<and>
      join_str '', '' (sorted_list_of_set (sources_of example_meta (''1997'', ''1-1997-1063-'')))
        = ''a.xls, b.xls'')"
proof -
  let ?r = "\<lparr>r_obj_id_raw = Str ''1 / 1997 / 1063 0'', r_year = ''1997'',
       r_base_prefix = ''1-1997-1063-'',
       r_images = [''1-1997-1063-000.jpg'', ''1-1997-1063-001.JPG''],
       r_image_count = 2, r_source_files = ''a.xls, b.xls''\<rparr>"
  note T = one_entry_per_key [OF example_run]
  have mem: "?r \<in> set example_rows" by (simp add: example_rows_def)
  have m1: "(Str '' 1 / 1997 / 1063 0'', ''a.xls'') \<in> set example_meta"
    and m2: "(Str ''1/1997/1063 2'', ''b.xls'') \<in> set example_meta"
    by (simp_all add: example_meta_def)
  have k1: "key_of (Str '' 1 / 1997 / 1063 0'') = Some (''1997'', ''1-1997-1063-'')"
    and k2: "key_of (Str ''1/1997/1063 2'') = Some (''1997'', ''1-1997-1063-'')"
    by code_simp+
  have rk: "row_key ?r = (''1997'', ''1-1997-1063-'')" by code_simp
  from T have d: "distinct (map row_key example_rows @ List.map_filter miss_key example_misses)"
    by blast
  from T m1 k1 have c: "(''1997'', ''1-1997-1063-'') \<in>
      set (map row_key example_rows @ List.map_filter miss_key example_misses)" by blast
  from T mem have "r_source_files ?r =
      join_str '', '' (sorted_list_of_set (sources_of example_meta (row_key ?r)))" by blast
  then have s: "join_str '', '' (sorted_list_of_set (sources_of example_meta (''1997'', ''1-1997-1063-'')))
        = ''a.xls, b.xls''" unfolding rk by simp
  have "\<exists>r. r \<in> set example_rows \<and> row_key r = (''1997'', ''1-1997-1063-'') \<and>
      r_source_files r = ''a.xls, b.xls'' \<and>
      join_str '', '' (sorted_list_of_set (sources_of example_meta (''1997'', ''1-1997-1063-'')))
        = ''a.xls, b.xls''"
    using mem rk s by (intro exI [of _ ?r]) simp
  with example_run d m1 m2 k1 k2 c show ?thesis by blast
qed

subsection \<open>The order of the entries\<close>

lemma drop_duplicates_filter:
  "drop_duplicates (filter P xs) = filter P (drop_duplicates xs)"
proof (induction xs rule: drop_duplicates.induct)
  case 1
  then show ?case by simp
next
  case (2 x xs)
  show ?case
  proof (cases "P x")
    case True
    have "filter (\<lambda>y. y \<noteq> x) (filter P xs) = filter P (filter (\<lambda>y. y \<noteq> x) xs)"
      by (simp add: conj_commute)
    with True 2 show ?thesis by simp
  next
    case False
    have "filter P (filter (\<lambda>y. y \<noteq> x) xs) = filter P xs"
      using False by (auto intro: filter_cong)
    with False 2 show ?thesis by simp
  qed
qed

lemma emit_keys:
  "List.map_filter key_of (emit seen xs) =
     filter (\<lambda>k. k \<notin> seen) (drop_duplicates (List.map_filter key_of xs))"
proof (induction xs arbitrary: seen)
  case Nil
  then show ?case by simp
next
  case (Cons x xs)
  show ?case
  proof (cases "key_of x")
    case None
    with Cons show ?thesis by simp
  next
    case (Some k)
    let ?ks = "drop_duplicates (List.map_filter key_of xs)"
    show ?thesis
    proof (cases "k \<in> seen")
      case True
      have "filter (\<lambda>a. a \<noteq> k \<and> a \<notin> seen) ?ks = filter (\<lambda>a. a \<notin> seen) ?ks"
        using True by (auto intro: filter_cong)
      with True Some Cons [of seen] show ?thesis by (simp add: drop_duplicates_filter)
    next
      case False
      have "filter (\<lambda>a. a \<noteq> k \<and> a \<notin> seen) ?ks = filter (\<lambda>a. a \<notin> seen \<and> a \<noteq> k) ?ks"
        by (auto intro: filter_cong)
      with False Some Cons [of "insert k seen"] show ?thesis
        by (simp add: drop_duplicates_filter)
    qed
  qed
qed

lemma subseq_selection:
  assumes "\<And>x. f x = None \<or> f x = kf x"
  shows "subseq (List.map_filter f xs) (List.map_filter kf xs)"
proof (induction xs)
  case Nil
  then show ?case by simp
next
  case (Cons x xs)
  from assms [of x] Cons show ?case by (auto split: option.splits)
qed

lemma build_order:
  assumes "build_links_like_group fs meta images_root = Inr (rows, misses)"
  shows "subseq (map row_key rows) (drop_duplicates (List.map_filter key_of (series_of meta)))"
    and "subseq (List.map_filter miss_key misses)
           (drop_duplicates (List.map_filter key_of (series_of meta)))"
    and "subseq (map r_obj_id_raw rows) (series_of meta)"
    and "subseq (map m_obj_id_raw misses) (series_of meta)"
proof -
  let ?E = "emit {} (series_of meta)"
  have ks: "List.map_filter key_of ?E = drop_duplicates (List.map_filter key_of (series_of meta))"
    by (simp add: emit_keys)
  have "subseq (List.map_filter (\<lambda>x. map_option row_key (mk_row fs images_root (sources_of meta) x)) ?E)
          (List.map_filter key_of ?E)"
  proof (rule subseq_selection)
    fix x
    show "map_option row_key (mk_row fs images_root (sources_of meta) x) = None \<or>
          map_option row_key (mk_row fs images_root (sources_of meta) x) = key_of x"
      by (cases "mk_row fs images_root (sources_of meta) x") (auto dest: row_key_mk_row)
  qed
  then show "subseq (map row_key rows) (drop_duplicates (List.map_filter key_of (series_of meta)))"
    unfolding build_char(1) [OF assms] map_map_filter ks .
  have "subseq (List.map_filter (\<lambda>x. Option.bind (mk_miss fs images_root x) miss_key) ?E)
          (List.map_filter key_of ?E)"
  proof (rule subseq_selection)
    fix x
    show "Option.bind (mk_miss fs images_root x) miss_key = None \<or>
          Option.bind (mk_miss fs images_root x) miss_key = key_of x"
      by (cases "mk_miss fs images_root x") (auto dest: miss_key_mk_miss)
  qed
  then show "subseq (List.map_filter miss_key misses)
           (drop_duplicates (List.map_filter key_of (series_of meta)))"
    unfolding build_char(2) [OF assms] map_filter_map_filter ks .
  have "subseq (List.map_filter (\<lambda>x. map_option r_obj_id_raw
           (mk_row fs images_root (sources_of meta) x)) ?E) (List.map_filter Some ?E)"
  proof (rule subseq_selection)
    fix x
    show "map_option r_obj_id_raw (mk_row fs images_root (sources_of meta) x) = None \<or>
          map_option r_obj_id_raw (mk_row fs images_root (sources_of meta) x) = Some x"
      by (cases "mk_row fs images_root (sources_of meta) x") (auto dest: row_key_mk_row)
  qed
  then have "subseq (map r_obj_id_raw rows) ?E"
    unfolding build_char(1) [OF assms] map_map_filter map_filter_Some .
  then show "subseq (map r_obj_id_raw rows) (series_of meta)"
    using emit_subseq [of "{}" "series_of meta"] subseq_order.order_trans by blast
  have "subseq (List.map_filter (\<lambda>x. map_option m_obj_id_raw (mk_miss fs images_root x)) ?E)
          (List.map_filter Some ?E)"
  proof (rule subseq_selection)
    fix x
    show "map_option m_obj_id_raw (mk_miss fs images_root x) = None \<or>
          map_option m_obj_id_raw (mk_miss fs images_root x) = Some x"
      by (cases "mk_miss fs images_root x") (auto dest: miss_key_mk_miss)
  qed
  then have "subseq (map m_obj_id_raw misses) ?E"
    unfolding build_char(2) [OF assms] map_map_filter map_filter_Some .
  then show "subseq (map m_obj_id_raw misses) (series_of meta)"
    using emit_subseq [of "{}" "series_of meta"] subseq_order.order_trans by blast
qed

lemma build_representative:
  assumes "build_links_like_group fs meta images_root = Inr (rows, misses)" and "r \<in> set rows"
  shows "List.find (\<lambda>v. key_of v = Some (row_key r)) (series_of meta) = Some (r_obj_id_raw r)"
    and "\<exists>c. List.find (\<lambda>v. v \<noteq> NaN \<and> key_of v = Some (row_key r)) (map fst meta) = Some c \<and>
           r_obj_id_raw r = strip_val c"
proof -
  from build_char(1) [OF assms(1)] assms(2) obtain x where
    x: "x \<in> set (emit {} (series_of meta))"
    "mk_row fs images_root (sources_of meta) x = Some r"
    by (auto simp: set_map_filter)
  from row_key_mk_row [OF x(2)] have k: "key_of x = Some (row_key r)" "r_obj_id_raw r = x"
    by simp_all
  from emit_first_with_key [OF x(1) k(1)] k(2)
  show f: "List.find (\<lambda>v. key_of v = Some (row_key r)) (series_of meta) = Some (r_obj_id_raw r)"
    by simp
  then show "\<exists>c. List.find (\<lambda>v. v \<noteq> NaN \<and> key_of v = Some (row_key r)) (map fst meta) = Some c \<and>
           r_obj_id_raw r = strip_val c"
    unfolding find_series by auto
qed

text \<open>
  C8. The keys of the linked groups, and the keys of the misses that have one, follow
  one another as in the list of the keys in the order of their first occurrence in the
  column of trimmed, deduplicated identifiers; the identifiers of the linked groups and
  those of the misses follow one another as in that column. The identifier of a linked
  group is the first one of the column that has the key of the group: the trimmed form of
  the first identifier of the input that has this key.
\<close>

theorem entries_in_first_encounter_order:
  assumes "build_links_like_group fs meta images_root = Inr (rows, misses)"
  shows "subseq (map row_key rows) (drop_duplicates (List.map_filter key_of (series_of meta))) \<and>
         subseq (List.map_filter miss_key misses)
           (drop_duplicates (List.map_filter key_of (series_of meta))) \<and>
         subseq (map r_obj_id_raw rows) (series_of meta) \<and>
         subseq (map m_obj_id_raw misses) (series_of meta) \<and>
         (\<forall>r\<in>set rows.
            List.find (\<lambda>v. key_of v = Some (row_key r)) (series_of meta) = Some (r_obj_id_raw r) \<and>
            (\<exists>c. List.find (\<lambda>v. v \<noteq> NaN \<and> key_of v = Some (row_key r)) (map fst meta) = Some c \<and>
               r_obj_id_raw r = strip_val c))"
  using build_order [OF assms] build_representative [OF assms] by blast

theorem entries_in_first_encounter_order_witness:
  "build_links_like_group example_fs example_meta ''root'' = Inr (example_rows, example_misses) \<and>
   series_of example_meta =
     [Str ''1 / 1997 / 1063 0'', Str ''1/1997/1063 2'', Str ''no number here'', Num 5,
      Str ''3/2001/050 0''] \<and>
   subseq (map r_obj_id_raw example_rows) (series_of example_meta) \<and>
   subseq (map m_obj_id_raw example_misses) (series_of example_meta) \<and>
   (\<exists>r. r \<in> set example_rows \<and>
      List.find (\<lambda>v. v \<noteq> NaN \<and> key_of v = Some (row_key r)) (map fst example_meta) =
        Some (Str '' 1 / 1997 / 1063 0'') \<and>
      r_obj_id_raw r = strip_val (Str '' 1 / 1997 / 1063 0''))"
proof -
  let ?r = "\<lparr>r_obj_id_raw = Str ''1 / 1997 / 1063 0'', r_year = ''1997'',
       r_base_prefix = ''1-1997-1063-'',
       r_images = [''1-1997-1063-000.jpg'', ''1-1997-1063-001.JPG''],
       r_image_count = 2, r_source_files = ''a.xls, b.xls''\<rparr>"
  note T = entries_in_first_encounter_order [OF example_run]
  have mem: "?r \<in> set example_rows" by (simp add: example_rows_def)
  have s: "series_of example_meta =
     [Str ''1 / 1997 / 1063 0'', Str ''1/1997/1063 2'', Str ''no number here'', Num 5,
      Str ''3/2001/050 0'']"
    by code_simp
  have f: "List.find (\<lambda>v. v \<noteq> NaN \<and> key_of v = Some (row_key ?r)) (map fst example_meta) =
        Some (Str '' 1 / 1997 / 1063 0'')"
    by code_simp
  from T mem obtain c where
    "List.find (\<lambda>v. v \<noteq> NaN \<and> key_of v = Some (row_key ?r)) (map fst example_meta) = Some c"
    "r_obj_id_raw ?r = strip_val c" by blast
  with f have "r_obj_id_raw ?r = strip_val (Str '' 1 / 1997 / 1063 0'')" by simp
  with mem f have "\<exists>r. r \<in> set example_rows \<and>
      List.find (\<lambda>v. v \<noteq> NaN \<and> key_of v = Some (row_key r)) (map fst example_meta) =
        Some (Str '' 1 / 1997 / 1063 0'') \<and>
      r_obj_id_raw r = strip_val (Str '' 1 / 1997 / 1063 0'')"
    by (intro exI [of _ ?r]) blast
  with T s example_run show ?thesis by blast
qed

subsection \<open>Missing identifiers\<close>

lemma key_of_NaN: "key_of NaN = None"
  by (simp add: key_of_def parts_of_def parse_object_number_def)

lemma source_loop_without_NaN:
  "source_loop (filter (\<lambda>r. fst r \<noteq> NaN) rs) src_map = source_loop rs src_map"
proof (induction rs arbitrary: src_map)
  case Nil
  then show ?case by simp
next
  case (Cons r rs)
  show ?case
  proof (cases "fst r = NaN")
    case True
    then have "source_step r src_map = Inr src_map" by (simp add: source_step_eq key_of_NaN)
    with True Cons show ?thesis by simp
  next
    case False
    with Cons show ?thesis by (simp add: source_step_eq)
  qed
qed

lemma series_without_NaN: "series_of (filter (\<lambda>r. fst r \<noteq> NaN) meta) = series_of meta"
proof -
  have "dropna (map fst (filter (\<lambda>r. fst r \<noteq> NaN) meta)) = dropna (map fst meta)"
    by (induction meta) (simp_all add: dropna_def)
  then show ?thesis by (simp add: series_of_def)
qed

lemma build_without_NaN:
  "build_links_like_group fs (filter (\<lambda>r. fst r \<noteq> NaN) meta) images_root =
   build_links_like_group fs meta images_root"
proof (cases "filter (\<lambda>r. fst r \<noteq> NaN) meta = []")
  case True
  then have s: "series_of meta = []"
    using series_without_NaN [of meta] by (simp add: series_of_def dropna_def)
  have l: "source_loop meta Map.empty = Inr Map.empty"
    using source_loop_without_NaN [of meta Map.empty] True by simp
  show ?thesis using True s l by (simp add: build_links_like_group_def)
next
  case False
  then have "meta \<noteq> []" by auto
  with False show ?thesis
    unfolding build_links_like_group_def source_loop_without_NaN series_without_NaN by simp
qed

lemma build_parse_misses:
  assumes "build_links_like_group fs meta images_root = Inr (rows, misses)"
  shows "v \<in> set (map m_obj_id_raw (filter (\<lambda>m. m_year m = None) misses)) \<longleftrightarrow>
           v \<in> set (series_of meta) \<and> parse_object_number v = None"
proof
  assume "v \<in> set (map m_obj_id_raw (filter (\<lambda>m. m_year m = None) misses))"
  then obtain m where m: "m \<in> set misses" "m_year m = None" "m_obj_id_raw m = v" by auto
  from build_missD [OF assms m(1)] m(2,3) obtain raw where
    "raw \<in> set (emit {} (series_of meta))" "parts_of raw = None" "raw = v" by auto
  then show "v \<in> set (series_of meta) \<and> parse_object_number v = None"
    using emit_subset [of "{}" "series_of meta"] by (auto simp: parts_of_None)
next
  assume a: "v \<in> set (series_of meta) \<and> parse_object_number v = None"
  then have p: "parts_of v = None" by (simp add: parts_of_None)
  then have "key_of v = None" by (simp add: key_of_def)
  with a have "v \<in> set (emit {} (series_of meta))" by (simp add: emit_keeps_unkeyed)
  moreover have "mk_miss fs images_root v =
      Some \<lparr>m_obj_id_raw = v, m_year = None, m_base_prefix = None, m_reason = reason_no_number\<rparr>"
    using p by (simp add: mk_miss_def)
  ultimately have "\<lparr>m_obj_id_raw = v, m_year = None, m_base_prefix = None,
      m_reason = reason_no_number\<rparr> \<in> set misses"
    unfolding build_char(2) [OF assms] set_map_filter by blast
  then show "v \<in> set (map m_obj_id_raw (filter (\<lambda>m. m_year m = None) misses))"
    by force
qed

lemma subseq_subset: "subseq xs ys \<Longrightarrow> x \<in> set xs \<Longrightarrow> x \<in> set ys"
  by (induction rule: list_emb.induct) auto

lemma build_ids_in_series:
  assumes "build_links_like_group fs meta images_root = Inr (rows, misses)"
  shows "set (map r_obj_id_raw rows @ map m_obj_id_raw misses) \<subseteq> set (series_of meta)"
proof -
  have "set (map r_obj_id_raw rows) \<subseteq> set (series_of meta)"
    using subseq_subset [OF build_order(3) [OF assms]] by blast
  moreover have "set (map m_obj_id_raw misses) \<subseteq> set (series_of meta)"
    using subseq_subset [OF build_order(4) [OF assms]] by blast
  ultimately show ?thesis by simp
qed

text \<open>
  C10 (as amended). A row whose identifier is missing contributes nothing: without
  such rows the result is the same, and no entry of the result has a missing
  identifier. The misses for which no number was found are exactly the trimmed
  identifiers that are not missing and that the parser rejects, be they strings or
  not.
\<close>

theorem missing_identifiers_are_dropped:
  "build_links_like_group fs (filter (\<lambda>r. fst r \<noteq> NaN) meta) images_root =
     build_links_like_group fs meta images_root \<and>
   (\<forall>rows misses. build_links_like_group fs meta images_root = Inr (rows, misses) \<longrightarrow>
      NaN \<notin> set (map r_obj_id_raw rows @ map m_obj_id_raw misses) \<and>
      (\<forall>v. v \<in> set (map m_obj_id_raw (filter (\<lambda>m. m_year m = None) misses)) \<longleftrightarrow>
             v \<in> strip_val ` {c \<in> fst ` set meta. c \<noteq> NaN} \<and> parse_object_number v = None))"
proof -
  have "NaN \<notin> set (map r_obj_id_raw rows @ map m_obj_id_raw misses) \<and>
      (\<forall>v. v \<in> set (map m_obj_id_raw (filter (\<lambda>m. m_year m = None) misses)) \<longleftrightarrow>
             v \<in> strip_val ` {c \<in> fst ` set meta. c \<noteq> NaN} \<and> parse_object_number v = None)"
    if b: "build_links_like_group fs meta images_root = Inr (rows, misses)" for rows misses
    using build_ids_in_series [OF b] NaN_not_in_series [of meta] build_parse_misses [OF b]
    unfolding set_series [symmetric] by blast
  then show ?thesis using build_without_NaN by blast
qed

theorem missing_identifiers_are_dropped_witness:
  "(NaN, ''a.xls'') \<in> set example_meta \<and>
   build_links_like_group example_fs (filter (\<lambda>r. fst r \<noteq> NaN) example_meta) ''root'' =
     Inr (example_rows, example_misses) \<and>
   build_links_like_group example_fs example_meta ''root'' = Inr (example_rows, example_misses) \<and>
   NaN \<notin> set (map r_obj_id_raw example_rows @ map m_obj_id_raw example_misses) \<and>
   Str ''no number here'' \<in> set (map m_obj_id_raw (filter (\<lambda>m. m_year m = None) example_misses)) \<and>
   Str ''no number here'' \<in> strip_val ` {c \<in> fst ` set example_meta. c \<noteq> NaN} \<and>
   parse_object_number (Str ''no number here'') = None"
proof -
  note T = missing_identifiers_are_dropped [of example_fs example_meta "''root''"]
  have mem: "(NaN, ''a.xls'') \<in> set example_meta" by (simp add: example_meta_def)
  have m: "Str ''no number here'' \<in>
      set (map m_obj_id_raw (filter (\<lambda>m. m_year m = None) example_misses))"
    by (simp add: example_misses_def)
  from T example_run have a: "build_links_like_group example_fs
      (filter (\<lambda>r. fst r \<noteq> NaN) example_meta) ''root'' = Inr (example_rows, example_misses)"
    by simp
  from T example_run have b: "NaN \<notin> set (map r_obj_id_raw example_rows @ map m_obj_id_raw example_misses)"
    by blast
  from T example_run m have c: "Str ''no number here'' \<in> strip_val ` {c \<in> fst ` set example_meta. c \<noteq> NaN} \<and>
      parse_object_number (Str ''no number here'') = None"
    by blast
  from mem a example_run b m c show ?thesis by blast
qed

text \<open>
  The claim as written fails for a cell that holds a number: it is not missing, it is
  not a string, and it is recorded in the list of misses.
\<close>

theorem number_cell_counterexample:
  "build_links_like_group example_fs [(Num 5, ''a.xls'')] ''root'' =
     Inr ([], [\<lparr>m_obj_id_raw = Num 5, m_year = None, m_base_prefix = None,
                m_reason = reason_no_number\<rparr>])"
  by code_simp

end
